theory Spec2Isabelle
  imports Main "HOL-Library.AList"
begin

section \<open>JavaScript values\<close>

text \<open>
  The reconcilers of \<^verbatim>\<open>components/data-handler.js\<close> work on untyped JSON data: bookmark
  nodes and extension records are plain objects read from storage, from an import file or
  from the browser. The model keeps that: a value is one of the JSON variants, plus
  \<open>undefined\<close>, which the code produces itself (an absent property reads as
  \<open>undefined\<close>, and the record merge stores \<open>undefined\<close> into fields).

  An object is the list of its own properties in insertion order. Numbers are integers
  (timestamps and counters are the only numbers the code computes with).
\<close>

datatype jsval =
    JUndefined
  | JNull
  | JBool bool
  | JNum int
  | JStr string
  | JArr "jsval list"
  | JObj "(string \<times> jsval) list"

text \<open>
  What the code can throw: a \<open>TypeError\<close> (property read on \<open>null\<close> or
  \<open>undefined\<close>, call of something that is not a function, iteration over something that
  is not iterable) and the \<open>SyntaxError\<close> of \<^verbatim>\<open>JSON.parse(undefined)\<close>.
  \<open>Unmodelled\<close> marks the one place where the model stops: string and number coercion of
  arrays, objects and non-numeric timestamps in the bookmark export.
\<close>

datatype error = TypeError | SyntaxError | Unmodelled

definition bind_r :: "error + 'a \<Rightarrow> ('a \<Rightarrow> error + 'b) \<Rightarrow> error + 'b" where
  "bind_r m f = (case m of Inl e \<Rightarrow> Inl e | Inr v \<Rightarrow> f v)"

text \<open>Truthiness, as tested by \<^verbatim>\<open>if (x)\<close>, \<^verbatim>\<open>x && y\<close>, \<^verbatim>\<open>x || y\<close> and \<^verbatim>\<open>x ? a : b\<close>.\<close>

fun truthy :: "jsval \<Rightarrow> bool" where
  "truthy JUndefined = False"
| "truthy JNull = False"
| "truthy (JBool b) = b"
| "truthy (JNum n) = (n \<noteq> 0)"
| "truthy (JStr s) = (s \<noteq> [])"
| "truthy (JArr xs) = True"
| "truthy (JObj ps) = True"

fun is_prim :: "jsval \<Rightarrow> bool" where
  "is_prim (JArr xs) = False"
| "is_prim (JObj ps) = False"
| "is_prim v = True"

text \<open>
  \<^verbatim>\<open>a === b\<close>: primitives are compared by value, arrays and objects by identity. Wherever
  the reconcilers compare two values with \<^verbatim>\<open>===\<close>, one side comes out of a fresh
  \<^verbatim>\<open>JSON.parse(JSON.stringify(...))\<close> copy, so two arrays or objects are never the same
  reference there.
\<close>

definition strict_eq :: "jsval \<Rightarrow> jsval \<Rightarrow> bool" where
  "strict_eq a b = (is_prim a \<and> a = b)"

text \<open>
  \<^verbatim>\<open>obj.k\<close> for the property names the code reads (\<open>id\<close>, \<open>title\<close>, \<open>url\<close>,
  \<open>children\<close>, ...): an own property of a plain object, \<open>undefined\<close> on anything else
  that can carry properties. \<open>get_prop\<close> adds the \<open>TypeError\<close> of a read on \<open>null\<close>
  or \<open>undefined\<close>.
\<close>

fun read_prop :: "jsval \<Rightarrow> string \<Rightarrow> jsval" where
  "read_prop (JObj ps) k = (case map_of ps k of None \<Rightarrow> JUndefined | Some v \<Rightarrow> v)"
| "read_prop v k = JUndefined"

fun get_prop :: "jsval \<Rightarrow> string \<Rightarrow> error + jsval" where
  "get_prop JUndefined k = Inl TypeError"
| "get_prop JNull k = Inl TypeError"
| "get_prop v k = Inr (read_prop v k)"

text \<open>
  \<^verbatim>\<open>obj.k = v\<close>: an existing property keeps its place, a new one goes to the end. The code
  only assigns to plain objects (a folder found in the target, the spread copy of a
  record).
\<close>

fun set_prop :: "jsval \<Rightarrow> string \<Rightarrow> jsval \<Rightarrow> jsval" where
  "set_prop (JObj ps) k v = JObj (AList.update k v ps)"
| "set_prop w k v = w"

fun own_props :: "jsval \<Rightarrow> (string \<times> jsval) list" where
  "own_props (JObj ps) = ps"
| "own_props v = []"

definition own_keys :: "jsval \<Rightarrow> string list" where
  "own_keys v = map fst (own_props v)"

text \<open>
  \<^verbatim>\<open>JSON.parse(JSON.stringify(v))\<close>: a property whose value is \<open>undefined\<close> is dropped,
  an \<open>undefined\<close> array element becomes \<open>null\<close>, and \<open>undefined\<close> itself cannot be
  parsed back.
\<close>

fun clone_val :: "jsval \<Rightarrow> jsval" where
  "clone_val (JArr xs) = JArr (map (\<lambda>v. if v = JUndefined then JNull else clone_val v) xs)"
| "clone_val (JObj ps) =
     JObj (map (\<lambda>(k, v). (k, clone_val v)) (filter (\<lambda>(k, v). v \<noteq> JUndefined) ps))"
| "clone_val v = v"

definition jsonClone :: "jsval \<Rightarrow> error + jsval" where
  "jsonClone v = (if v = JUndefined then Inl SyntaxError else Inr (clone_val v))"

text \<open>JSON data proper: no \<open>undefined\<close> anywhere inside.\<close>

fun is_json :: "jsval \<Rightarrow> bool" where
  "is_json JUndefined = False"
| "is_json (JArr xs) = list_all is_json xs"
| "is_json (JObj ps) = list_all (\<lambda>(k, v). is_json v) ps"
| "is_json v = True"

text \<open>
  The receiver of \<^verbatim>\<open>.find\<close>, \<^verbatim>\<open>.some\<close> and \<^verbatim>\<open>.push\<close> has to be an array, and
  \<^verbatim>\<open>for (const x of source)\<close> needs an iterable: an array, or a string, which yields its
  characters.
\<close>

fun as_array :: "jsval \<Rightarrow> error + jsval list" where
  "as_array (JArr xs) = Inr xs"
| "as_array v = Inl TypeError"

fun iter_items :: "jsval \<Rightarrow> error + jsval list" where
  "iter_items (JArr xs) = Inr xs"
| "iter_items (JStr s) = Inr (map (\<lambda>c. JStr [c]) s)"
| "iter_items v = Inl TypeError"

section \<open>The tree reconciler: \<^verbatim>\<open>mergeBookmarkTrees\<close>\<close>

text \<open>
  \<^verbatim>\<open>target.find(t => t.children && t.title === srcNodeCopy.title)\<close>. The code goes on to
  assign through the reference it gets, so the model returns the index of the first match.
\<close>

definition shift_index :: "error + nat option \<Rightarrow> error + nat option" where
  "shift_index r = bind_r r (\<lambda>found. Inr (map_option Suc found))"

fun find_folder :: "jsval list \<Rightarrow> jsval \<Rightarrow> error + nat option" where
  "find_folder [] title = Inr None"
| "find_folder (t # ts) title =
     bind_r (get_prop t ''children'') (\<lambda>c.
       if truthy c then
         bind_r (get_prop t ''title'') (\<lambda>tt.
           if strict_eq tt title then Inr (Some 0) else shift_index (find_folder ts title))
       else shift_index (find_folder ts title))"

text \<open>
  \<^verbatim>\<open>target.some(t => t.url && node.url && t.url === node.url && t.title === node.title)\<close>
\<close>

fun isDuplicateBookmark :: "jsval list \<Rightarrow> jsval \<Rightarrow> error + bool" where
  "isDuplicateBookmark [] node = Inr False"
| "isDuplicateBookmark (t # ts) node =
     bind_r (get_prop t ''url'') (\<lambda>tu.
       if \<not> truthy tu then isDuplicateBookmark ts node else
       bind_r (get_prop node ''url'') (\<lambda>nu.
         if \<not> truthy nu then isDuplicateBookmark ts node else
         if \<not> strict_eq tu nu then isDuplicateBookmark ts node else
         bind_r (get_prop t ''title'') (\<lambda>tt.
         bind_r (get_prop node ''title'') (\<lambda>nt.
           if strict_eq tt nt then Inr True else isDuplicateBookmark ts node))))"

lemma bind_r_cong [fundef_cong]:
  "m = m' \<Longrightarrow> (\<And>v. m' = Inr v \<Longrightarrow> f v = f' v) \<Longrightarrow> bind_r m f = bind_r m' f'"
  by (cases m') (simp_all add: bind_r_def)

lemma size_clone_val: "size (clone_val v) \<le> size v"
proof (induction v rule: clone_val.induct)
  case (1 xs)
  have "size_list (size \<circ> (\<lambda>v. if v = JUndefined then JNull else clone_val v)) xs
        \<le> size_list size xs"
    by (rule size_list_pointwise) (use 1 in auto)
  then show ?case by (simp add: size_list_map)
next
  case (2 ps)
  let ?f = "size_prod (\<lambda>x. 0) size"
  have a: "size_list (?f \<circ> (\<lambda>(k, v). (k, clone_val v))) (filter (\<lambda>(k, v). v \<noteq> JUndefined) ps)
        \<le> size_list ?f (filter (\<lambda>(k, v). v \<noteq> JUndefined) ps)"
    by (rule size_list_pointwise) (use 2 in auto)
  have b: "size_list ?f (filter P ps) \<le> size_list ?f ps" for P
    by (induction ps) auto
  show ?case using a b [of "\<lambda>(k, v). v \<noteq> JUndefined"] by (simp add: size_list_map)
qed simp_all

lemma size_get_prop: "get_prop v k = Inr c \<Longrightarrow> truthy c \<Longrightarrow> size c < size v"
proof (cases v)
  case (JObj ps)
  assume g: "get_prop v k = Inr c" and t: "truthy c"
  have "map_of ps k = Some c" using g t JObj by (auto split: option.splits)
  then have "(k, c) \<in> set ps" by (rule map_of_SomeD)
  then have "size c < Suc (size_list (size_prod (\<lambda>x. 0) size) ps)"
    by (induction ps) auto
  then show ?thesis using JObj by simp
qed auto

lemma size_iter_items: "iter_items c = Inr items \<Longrightarrow> sum_list (map size items) \<le> size c"
proof (cases c)
  case (JArr xs)
  assume "iter_items c = Inr items"
  then have "items = xs" using JArr by simp
  moreover have "sum_list (map size xs) \<le> size_list size xs" by (induction xs) auto
  ultimately show ?thesis using JArr by simp
next
  case (JStr s)
  assume "iter_items c = Inr items"
  then have items: "items = map (\<lambda>c. JStr [c]) s" using JStr by simp
  have "sum_list (map size (map (\<lambda>c. JStr [c]) s)) = 0" by (induction s) auto
  then show ?thesis unfolding items by linarith
qed auto

text \<open>
  The loop of \<^verbatim>\<open>mergeNodes(target, source)\<close> over the nodes of \<open>source\<close>. The code mutates
  the array \<open>target\<close> and the folders in it; \<open>target\<close> is a fresh deep copy and so is
  every \<open>srcNodeCopy\<close>, so the mutated structure is a tree that nothing else points into,
  and the model returns the new target instead.
  \<^verbatim>\<open>
  for (const srcNode of source) {
    const srcNodeCopy = JSON.parse(JSON.stringify(srcNode));
    if (srcNodeCopy.children) {
      const existingFolderInTarget = target.find(
        t => t.children && t.title === srcNodeCopy.title);
      if (existingFolderInTarget) {
        if (srcNodeCopy.title === 'Bookmarks Bar') {
          existingFolderInTarget.children = srcNodeCopy.children;
        } else {
          existingFolderInTarget.title = srcNodeCopy.title;
          mergeNodes(existingFolderInTarget.children, srcNodeCopy.children);
        }
      } else { target.push(srcNodeCopy); }
    } else {
      if (!isDuplicateBookmark(target, srcNodeCopy)) { target.push(srcNodeCopy); }
    }
  }
  \<close>
\<close>

function mergeNodes :: "jsval \<Rightarrow> jsval list \<Rightarrow> error + jsval" where
  "mergeNodes target [] = Inr target"
| "mergeNodes target (srcNode # rest) =
     bind_r (jsonClone srcNode) (\<lambda>srcNodeCopy.
     bind_r (get_prop srcNodeCopy ''children'') (\<lambda>srcChildren.
       if truthy srcChildren then
         bind_r (as_array target) (\<lambda>ts.
         bind_r (get_prop srcNodeCopy ''title'') (\<lambda>srcTitle.
         bind_r (find_folder ts srcTitle) (\<lambda>found.
           case found of
             Some i \<Rightarrow>
               if strict_eq srcTitle (JStr ''Bookmarks Bar'') then
                 mergeNodes (JArr (ts[i := set_prop (ts ! i) ''children'' srcChildren])) rest
               else
                 let existing = set_prop (ts ! i) ''title'' srcTitle in
                 bind_r (get_prop existing ''children'') (\<lambda>existingChildren.
                 bind_r (iter_items srcChildren) (\<lambda>srcItems.
                 bind_r (mergeNodes existingChildren srcItems) (\<lambda>mergedChildren.
                   mergeNodes (JArr (ts[i := set_prop existing ''children'' mergedChildren])) rest)))
           | None \<Rightarrow> mergeNodes (JArr (ts @ [srcNodeCopy])) rest)))
       else
         bind_r (as_array target) (\<lambda>ts.
         bind_r (isDuplicateBookmark ts srcNodeCopy) (\<lambda>dup.
           if dup then mergeNodes target rest
           else mergeNodes (JArr (ts @ [srcNodeCopy])) rest))))"
  by pat_completeness auto
termination
proof (relation "measures [\<lambda>(t, src). sum_list (map size src), \<lambda>(t, src). length src]", goal_cases)
  case (4 target srcNode rest v va vb vc vd x2 x ve vf)
  have "size v \<le> size srcNode"
    using 4(1) size_clone_val [of srcNode] by (auto simp: jsonClone_def split: if_splits)
  moreover have "size va < size v" using 4(2,3) by (rule size_get_prop)
  moreover have "sum_list (map size vf) \<le> size va" using 4(11) by (rule size_iter_items)
  ultimately show ?case by simp
qed auto

text \<open>
  \<^verbatim>\<open>export function mergeBookmarkTrees(listA = [], listB = [])\<close>: a default applies to an
  argument that is \<open>undefined\<close>, and to nothing else.
\<close>

definition mergeBookmarkTrees :: "jsval \<Rightarrow> jsval \<Rightarrow> error + jsval" where
  "mergeBookmarkTrees listA listB =
     (let a = (if listA = JUndefined then JArr [] else listA);
          b = (if listB = JUndefined then JArr [] else listB)
      in bind_r (jsonClone a) (\<lambda>merged.
         bind_r (iter_items b) (\<lambda>items. mergeNodes merged items)))"

section \<open>The record reconciler: \<^verbatim>\<open>mergeExtensionLists\<close>\<close>

text \<open>
  \<^verbatim>\<open>Array.isArray(listA) ? listA.filter(e => e && typeof e === 'object') : []\<close>
\<close>

fun is_record :: "jsval \<Rightarrow> bool" where
  "is_record (JArr xs) = True"
| "is_record (JObj ps) = True"
| "is_record v = False"

fun filter_records :: "jsval \<Rightarrow> jsval list" where
  "filter_records (JArr xs) = filter is_record xs"
| "filter_records v = []"

text \<open>
  The two index maps. A \<open>Map\<close> finds a primitive key by value and an object key by
  identity. Every lookup that decides a match uses a key of the fresh copy
  \<open>currentExtCopy\<close>, which no entry can hold by identity, so entries under array or object
  keys are never found and the model does not keep them.
\<close>

definition map_get :: "(jsval \<rightharpoonup> nat) \<Rightarrow> jsval \<Rightarrow> nat option" where
  "map_get m k = (if is_prim k then m k else None)"

definition map_set :: "(jsval \<rightharpoonup> nat) \<Rightarrow> jsval \<Rightarrow> nat \<Rightarrow> (jsval \<rightharpoonup> nat)" where
  "map_set m k i = (if is_prim k then m(k \<mapsto> i) else m)"

definition map_delete :: "(jsval \<rightharpoonup> nat) \<Rightarrow> jsval \<Rightarrow> (jsval \<rightharpoonup> nat)" where
  "map_delete m k = (if is_prim k then m(k := None) else m)"

definition or_js :: "jsval \<Rightarrow> jsval \<Rightarrow> jsval" where
  "or_js a b = (if truthy a then a else b)"

definition present :: "jsval \<Rightarrow> bool" where
  "present v = (v \<noteq> JUndefined \<and> v \<noteq> JNull)"

text \<open>\<^verbatim>\<open>x && x !== ""\<close>, the test the code puts on every homepage URL it indexes.\<close>

definition nonempty_url :: "jsval \<Rightarrow> bool" where
  "nonempty_url v = (truthy v \<and> v \<noteq> JStr [])"

definition special_keys :: "string list" where
  "special_keys = [''id'', ''name'', ''homepageUrl'', ''updateUrl'']"

text \<open>
  \<^verbatim>\<open>obj.hasOwnProperty(key)\<close> inside \<^verbatim>\<open>for (const key in obj)\<close>: the method comes from
  the prototype unless the record has an own property of that name, and then the call
  throws, because no value of a record is a function.
\<close>

definition hasOwnProperty_call :: "jsval \<Rightarrow> error + unit" where
  "hasOwnProperty_call obj =
     (if ''hasOwnProperty'' \<in> set (own_keys obj) then Inl TypeError else Inr ())"

text \<open>
  \<^verbatim>\<open>
  for (const key in preferredExt) {
    if (preferredExt.hasOwnProperty(key) && !['id','name','homepageUrl','updateUrl'].includes(key)) {
      if (preferredExt[key] !== undefined) { mergedExt[key] = preferredExt[key]; }
    }
  }
  \<close>
\<close>

definition overlay_preferred :: "jsval \<Rightarrow> jsval \<Rightarrow> error + jsval" where
  "overlay_preferred preferredExt mergedExt =
     bind_r (hasOwnProperty_call preferredExt) (\<lambda>_.
       Inr (fold (\<lambda>key m.
                   if key \<notin> set special_keys \<and> read_prop preferredExt key \<noteq> JUndefined
                   then set_prop m key (read_prop preferredExt key) else m)
                 (own_keys preferredExt) mergedExt))"

text \<open>
  \<^verbatim>\<open>
  for (const key in baseExt) {
    if (baseExt.hasOwnProperty(key) && mergedExt[key] === undefined && baseExt[key] !== undefined) {
      mergedExt[key] = baseExt[key];
    }
  }
  \<close>
\<close>

definition restore_base :: "jsval \<Rightarrow> jsval \<Rightarrow> error + jsval" where
  "restore_base baseExt mergedExt =
     bind_r (hasOwnProperty_call baseExt) (\<lambda>_.
       Inr (fold (\<lambda>key m.
                   if read_prop m key = JUndefined \<and> read_prop baseExt key \<noteq> JUndefined
                   then set_prop m key (read_prop baseExt key) else m)
                 (own_keys baseExt) mergedExt))"

text \<open>
  The merged record, lines 564 to 585:
  \<^verbatim>\<open>
  const mergedExt = { ...baseExt };
  mergedExt.id = preferredExt.id || baseExt.id;
  mergedExt.name = (preferredExt.name !== undefined && preferredExt.name !== null)
      ? preferredExt.name : baseExt.name;
  mergedExt.homepageUrl = (preferredExt.homepageUrl !== undefined
      && preferredExt.homepageUrl !== null && preferredExt.homepageUrl !== "")
      ? preferredExt.homepageUrl : baseExt.homepageUrl;
  mergedExt.updateUrl = (preferredExt.updateUrl !== undefined && preferredExt.updateUrl !== null)
      ? preferredExt.updateUrl : baseExt.updateUrl;
  \<close>
  and then the two loops above, in that order.
\<close>

definition assign_preferred :: "jsval \<Rightarrow> jsval \<Rightarrow> jsval" where
  "assign_preferred baseExt preferredExt =
     (let m0 = JObj (own_props baseExt);
          m1 = set_prop m0 ''id'' (or_js (read_prop preferredExt ''id'') (read_prop baseExt ''id''));
          m2 = set_prop m1 ''name''
                 (if present (read_prop preferredExt ''name'')
                  then read_prop preferredExt ''name'' else read_prop baseExt ''name'');
          m3 = set_prop m2 ''homepageUrl''
                 (if present (read_prop preferredExt ''homepageUrl'')
                     \<and> read_prop preferredExt ''homepageUrl'' \<noteq> JStr []
                  then read_prop preferredExt ''homepageUrl''
                  else read_prop baseExt ''homepageUrl'')
      in set_prop m3 ''updateUrl''
                 (if present (read_prop preferredExt ''updateUrl'')
                  then read_prop preferredExt ''updateUrl'' else read_prop baseExt ''updateUrl''))"

definition mergeRecord :: "jsval \<Rightarrow> jsval \<Rightarrow> error + jsval" where
  "mergeRecord baseExt preferredExt =
     bind_r (overlay_preferred preferredExt (assign_preferred baseExt preferredExt))
       (restore_base baseExt)"

record merge_state =
  finalResult :: "jsval list"
  idToIndexMap :: "jsval \<rightharpoonup> nat"
  urlToIndexMap :: "jsval \<rightharpoonup> nat"

text \<open>\<^verbatim>\<open>finalResult[i]\<close> is \<open>undefined\<close> past the end of the array.\<close>

definition nth_js :: "jsval list \<Rightarrow> nat \<Rightarrow> jsval" where
  "nth_js xs i = (if i < length xs then xs ! i else JUndefined)"

text \<open>
  The bookkeeping of the id map after a unification, lines 590 to 606 and 622 to 624:
  \<^verbatim>\<open>
  if (oldId !== mergedExt.id || (mergedExt.id && idToIndexMap.get(mergedExt.id) !== matchedIndex)) {
    if (oldId && idToIndexMap.get(oldId) === matchedIndex) { idToIndexMap.delete(oldId); }
    if (mergedExt.id) { idToIndexMap.set(mergedExt.id, matchedIndex); }
  }
  ...
  if (!oldId && mergedExt.id && idToIndexMap.get(mergedExt.id) !== matchedIndex) {
    idToIndexMap.set(mergedExt.id, matchedIndex);
  }
  \<close>
  and the same for the URL map, lines 608 to 619 and 626 to 628, with the test
  \<^verbatim>\<open>x && x !== ""\<close> in place of \<^verbatim>\<open>x\<close>.
\<close>

definition reindex_id ::
  "(jsval \<rightharpoonup> nat) \<Rightarrow> jsval \<Rightarrow> jsval \<Rightarrow> nat \<Rightarrow> (jsval \<rightharpoonup> nat)" where
  "reindex_id idm oldId newId matchedIndex =
     (let m1 =
        (if \<not> strict_eq oldId newId
            \<or> (truthy newId \<and> map_get idm newId \<noteq> Some matchedIndex)
         then
           (let d = (if truthy oldId \<and> map_get idm oldId = Some matchedIndex
                     then map_delete idm oldId else idm)
            in if truthy newId then map_set d newId matchedIndex else d)
         else idm)
      in if \<not> truthy oldId \<and> truthy newId \<and> map_get m1 newId \<noteq> Some matchedIndex
         then map_set m1 newId matchedIndex else m1)"

definition reindex_url ::
  "(jsval \<rightharpoonup> nat) \<Rightarrow> jsval \<Rightarrow> jsval \<Rightarrow> nat \<Rightarrow> (jsval \<rightharpoonup> nat)" where
  "reindex_url urlm oldUrl newUrl matchedIndex =
     (let m1 =
        (if \<not> strict_eq oldUrl newUrl
            \<or> (nonempty_url newUrl \<and> map_get urlm newUrl \<noteq> Some matchedIndex)
         then
           (let d = (if nonempty_url oldUrl \<and> map_get urlm oldUrl = Some matchedIndex
                     then map_delete urlm oldUrl else urlm)
            in if nonempty_url newUrl then map_set d newUrl matchedIndex else d)
         else urlm)
      in if (\<not> truthy oldUrl \<or> oldUrl = JStr []) \<and> nonempty_url newUrl
            \<and> map_get m1 newUrl \<noteq> Some matchedIndex
         then map_set m1 newUrl matchedIndex else m1)"

text \<open>The \<open>else\<close> branch, lines 631 to 640: a record that matched nothing is appended.\<close>

definition push_new :: "jsval \<Rightarrow> merge_state \<Rightarrow> merge_state" where
  "push_new currentExtCopy st =
     (let newIndex = length (finalResult st);
          cid = read_prop currentExtCopy ''id'';
          curl = read_prop currentExtCopy ''homepageUrl''
      in \<lparr> finalResult = finalResult st @ [currentExtCopy],
           idToIndexMap =
             (if truthy cid then map_set (idToIndexMap st) cid newIndex else idToIndexMap st),
           urlToIndexMap =
             (if nonempty_url curl then map_set (urlToIndexMap st) curl newIndex
              else urlToIndexMap st) \<rparr>)"

text \<open>
  The \<open>then\<close> branch, lines 555 to 628: the record in the matched slot and the current one
  are merged, \<open>isFromListB\<close> deciding which of them is preferred.
\<close>

definition unify :: "bool \<Rightarrow> jsval \<Rightarrow> nat \<Rightarrow> merge_state \<Rightarrow> error + merge_state" where
  "unify isFromListB currentExtCopy matchedIndex st =
     (let targetExtRef = nth_js (finalResult st) matchedIndex;
          oldId = read_prop targetExtRef ''id'';
          oldUrl = read_prop targetExtRef ''homepageUrl'';
          baseExt = (if isFromListB then targetExtRef else currentExtCopy);
          preferredExt = (if isFromListB then currentExtCopy else targetExtRef)
      in bind_r (mergeRecord baseExt preferredExt) (\<lambda>mergedExt.
           Inr \<lparr> finalResult = (finalResult st)[matchedIndex := mergedExt],
                 idToIndexMap =
                   reindex_id (idToIndexMap st) oldId (read_prop mergedExt ''id'') matchedIndex,
                 urlToIndexMap =
                   reindex_url (urlToIndexMap st) oldUrl (read_prop mergedExt ''homepageUrl'')
                     matchedIndex \<rparr>))"

text \<open>
  Lines 539 to 553: the slot of the current record, by id first and by homepage URL only
  when the id finds nothing.
\<close>

definition lookup_slot :: "jsval \<Rightarrow> merge_state \<Rightarrow> nat option" where
  "lookup_slot currentExtCopy st =
     (let cid = read_prop currentExtCopy ''id'';
          curl = read_prop currentExtCopy ''homepageUrl'';
          existingIdIndex = (if truthy cid then map_get (idToIndexMap st) cid else None);
          existingUrlIndex =
            (if nonempty_url curl then map_get (urlToIndexMap st) curl else None)
      in case existingIdIndex of Some i \<Rightarrow> Some i | None \<Rightarrow> existingUrlIndex)"

definition merge_step :: "bool \<Rightarrow> jsval \<Rightarrow> merge_state \<Rightarrow> error + merge_state" where
  "merge_step isFromListB currentExt st =
     (let currentExtCopy = clone_val currentExt in
      case lookup_slot currentExtCopy st of
        Some matchedIndex \<Rightarrow>
          if truthy (nth_js (finalResult st) matchedIndex)
          then unify isFromListB currentExtCopy matchedIndex st
          else Inr (push_new currentExtCopy st)
      | None \<Rightarrow> Inr (push_new currentExtCopy st))"

text \<open>
  \<^verbatim>\<open>[...L_A, ...L_B].forEach((currentExt, indexInCombinedArray) => ...)\<close> with
  \<^verbatim>\<open>isFromListB = indexInCombinedArray >= L_A.length\<close>: one pass over \<open>L_A\<close> with the flag
  off, then one over \<open>L_B\<close> with the flag on.
\<close>

fun merge_all :: "bool \<Rightarrow> jsval list \<Rightarrow> merge_state \<Rightarrow> error + merge_state" where
  "merge_all isFromListB [] st = Inr st"
| "merge_all isFromListB (currentExt # rest) st =
     bind_r (merge_step isFromListB currentExt st) (merge_all isFromListB rest)"

definition initial_state :: merge_state where
  "initial_state = \<lparr> finalResult = [], idToIndexMap = Map.empty, urlToIndexMap = Map.empty \<rparr>"

definition mergeExtensionLists :: "jsval \<Rightarrow> jsval \<Rightarrow> error + jsval list" where
  "mergeExtensionLists listA listB =
     (let L_A = filter_records listA; L_B = filter_records listB in
      bind_r (merge_all False L_A initial_state) (\<lambda>s1.
      bind_r (merge_all True L_B s1) (\<lambda>s2. Inr (finalResult s2))))"

section \<open>The change summary: \<^verbatim>\<open>diffById\<close>\<close>

text \<open>
  \<^verbatim>\<open>arr.map(f)\<close> with a callback that can throw: the results in order, or the first error.
\<close>

fun map_r :: "('a \<Rightarrow> error + 'b) \<Rightarrow> 'a list \<Rightarrow> error + 'b list" where
  "map_r f [] = Inr []"
| "map_r f (x # xs) = bind_r (f x) (\<lambda>y. bind_r (map_r f xs) (\<lambda>ys. Inr (y # ys)))"

lemma map_r_cong [fundef_cong]:
  "xs = ys \<Longrightarrow> (\<And>x. x \<in> set ys \<Longrightarrow> f x = g x) \<Longrightarrow> map_r f xs = map_r g ys"
  by (induction ys arbitrary: xs) (auto simp: bind_r_def)

text \<open>\<^verbatim>\<open>arr.map(item => item.id)\<close>: the receiver has to be an array, and no item \<open>null\<close>.\<close>

definition item_ids :: "jsval \<Rightarrow> error + jsval list" where
  "item_ids arr = bind_r (as_array arr) (map_r (\<lambda>item. get_prop item ''id''))"

text \<open>
  A \<open>Set\<close> of ids, kept as the list of its members in insertion order. \<open>has\<close> finds a
  primitive by value and an object by identity; the ids of the two lists come out of
  different snapshots, so an array or object id is never found.
\<close>

definition set_has :: "jsval list \<Rightarrow> jsval \<Rightarrow> bool" where
  "set_has s x = list_ex (\<lambda>y. strict_eq x y) s"

definition set_add :: "jsval list \<Rightarrow> jsval \<Rightarrow> jsval list" where
  "set_add s x = (if set_has s x then s else s @ [x])"

definition new_Set :: "jsval list \<Rightarrow> jsval list" where
  "new_Set xs = foldl set_add [] xs"

record diff_counts =
  addedCount :: nat
  removedCount :: nat

text \<open>
  \<^verbatim>\<open>
  function diffById(currentArr, prevArr) {
    const currentIds = new Set(currentArr.map(item => item.id));
    const prevIds = new Set(prevArr.map(item => item.id));
    const added = [...currentIds].filter(id => !prevIds.has(id));
    const removed = [...prevIds].filter(id => !currentIds.has(id));
    return { addedCount: added.length, removedCount: removed.length };
  }
  \<close>
\<close>

definition diffById :: "jsval \<Rightarrow> jsval \<Rightarrow> error + diff_counts" where
  "diffById currentArr prevArr =
     bind_r (item_ids currentArr) (\<lambda>cur.
     bind_r (item_ids prevArr) (\<lambda>prev.
       let currentIds = new_Set cur;
           prevIds = new_Set prev;
           added = filter (\<lambda>i. \<not> set_has prevIds i) currentIds;
           removed = filter (\<lambda>i. \<not> set_has currentIds i) prevIds
       in Inr \<lparr>addedCount = length added, removedCount = length removed\<rparr>))"


section \<open>The HTML export: \<^verbatim>\<open>bookmarksToHtml\<close>\<close>


















section \<open>The reconcilers over a store of references\<close>

text \<open>
  The sections above follow the values of the reconcilers. Whether a call writes to an
  object that the caller holds, or returns one, is a question about references, and for it
  the same code is read once more over an explicit store: a value is a primitive or the
  address of a cell, a cell is an array or a plain object, and the store is the list of
  the cells allocated so far, a new cell taking the next address.
\<close>

datatype hval = HUndefined | HNull | HBool bool | HNum int | HStr string | HRef nat

datatype cell = HArr "hval list" | HObj "(string \<times> hval) list"

type_synonym store = "cell list"

definition h_cell :: "store \<Rightarrow> nat \<Rightarrow> cell option" where
  "h_cell s a = (if a < length s then Some (s ! a) else None)"

definition alloc :: "cell \<Rightarrow> store \<Rightarrow> hval \<times> store" where
  "alloc c s = (HRef (length s), s @ [c])"

fun h_truthy :: "hval \<Rightarrow> bool" where
  "h_truthy HUndefined = False"
| "h_truthy HNull = False"
| "h_truthy (HBool b) = b"
| "h_truthy (HNum n) = (n \<noteq> 0)"
| "h_truthy (HStr s) = (s \<noteq> [])"
| "h_truthy (HRef a) = True"

text \<open>
  \<^verbatim>\<open>obj.k\<close> for the property names the code reads, \<^verbatim>\<open>obj.k = x\<close> on a plain object,
  the elements of the receiver of \<^verbatim>\<open>.find\<close>, \<^verbatim>\<open>.some\<close>, \<^verbatim>\<open>.filter\<close>, then
  \<^verbatim>\<open>arr.push(x)\<close>, \<^verbatim>\<open>arr[i]\<close> and \<^verbatim>\<open>arr[i] = x\<close>.
\<close>

fun h_own_props :: "store \<Rightarrow> hval \<Rightarrow> (string \<times> hval) list" where
  "h_own_props s (HRef a) = (case h_cell s a of Some (HObj ps) \<Rightarrow> ps | _ \<Rightarrow> [])"
| "h_own_props s v = []"

definition h_prop :: "store \<Rightarrow> hval \<Rightarrow> string \<Rightarrow> hval" where
  "h_prop s v k = (case map_of (h_own_props s v) k of None \<Rightarrow> HUndefined | Some x \<Rightarrow> x)"

fun h_get :: "store \<Rightarrow> hval \<Rightarrow> string \<Rightarrow> error + hval" where
  "h_get s HUndefined k = Inl TypeError"
| "h_get s HNull k = Inl TypeError"
| "h_get s v k = Inr (h_prop s v k)"

fun h_write :: "store \<Rightarrow> hval \<Rightarrow> string \<Rightarrow> hval \<Rightarrow> store" where
  "h_write s (HRef a) k x =
     (case h_cell s a of Some (HObj ps) \<Rightarrow> s[a := HObj (AList.update k x ps)] | _ \<Rightarrow> s)"
| "h_write s v k x = s"

fun h_elems :: "store \<Rightarrow> hval \<Rightarrow> error + hval list" where
  "h_elems s (HRef a) = (case h_cell s a of Some (HArr xs) \<Rightarrow> Inr xs | _ \<Rightarrow> Inl TypeError)"
| "h_elems s v = Inl TypeError"

fun h_push :: "store \<Rightarrow> hval \<Rightarrow> hval \<Rightarrow> store" where
  "h_push s (HRef a) x =
     (case h_cell s a of Some (HArr xs) \<Rightarrow> s[a := HArr (xs @ [x])] | _ \<Rightarrow> s)"
| "h_push s v x = s"

definition h_index :: "store \<Rightarrow> hval \<Rightarrow> nat \<Rightarrow> hval" where
  "h_index s arr i =
     (case h_elems s arr of Inr xs \<Rightarrow> (if i < length xs then xs ! i else HUndefined)
      | Inl e \<Rightarrow> HUndefined)"

fun h_set_index :: "store \<Rightarrow> hval \<Rightarrow> nat \<Rightarrow> hval \<Rightarrow> store" where
  "h_set_index s (HRef a) i x =
     (case h_cell s a of Some (HArr xs) \<Rightarrow> s[a := HArr (xs[i := x])] | _ \<Rightarrow> s)"
| "h_set_index s v i x = s"

text \<open>
  \<^verbatim>\<open>for (const srcNode of source)\<close>: the iterator of an array looks at the array as it
  is when the next element is asked for, so the loop is a walk by index over the current
  cell. A string yields its characters; nothing else that reaches the loop is iterable.
\<close>

fun for_of :: "store \<Rightarrow> hval \<Rightarrow> nat \<Rightarrow> error + hval option" where
  "for_of s (HRef a) i =
     (case h_cell s a of
        Some (HArr xs) \<Rightarrow> Inr (if i < length xs then Some (xs ! i) else None)
      | _ \<Rightarrow> Inl TypeError)"
| "for_of s (HStr str) i = Inr (if i < length str then Some (HStr [str ! i]) else None)"
| "for_of s v i = Inl TypeError"

text \<open>
  \<^verbatim>\<open>JSON.stringify\<close> reads the structure below a value. A path that is longer than the
  number of cells of the store passes twice through one cell, and on such a cycle
  \<^verbatim>\<open>JSON.stringify\<close> throws; the depth bound expresses this. \<^verbatim>\<open>JSON.parse\<close> allocates
  a cell for every array and object of the text.
\<close>

fun stringify :: "store \<Rightarrow> nat \<Rightarrow> hval \<Rightarrow> error + jsval" where
  "stringify s d HUndefined = Inr JUndefined"
| "stringify s d HNull = Inr JNull"
| "stringify s d (HBool b) = Inr (JBool b)"
| "stringify s d (HNum n) = Inr (JNum n)"
| "stringify s d (HStr str) = Inr (JStr str)"
| "stringify s 0 (HRef a) = Inl TypeError"
| "stringify s (Suc d) (HRef a) =
     (case h_cell s a of
        None \<Rightarrow> Inl Unmodelled
      | Some (HArr xs) \<Rightarrow> bind_r (map_r (stringify s d) xs) (\<lambda>ys. Inr (JArr ys))
      | Some (HObj ps) \<Rightarrow>
          bind_r (map_r (\<lambda>(k, v). bind_r (stringify s d v) (\<lambda>y. Inr (k, y))) ps)
            (\<lambda>qs. Inr (JObj qs)))"

fun parse :: "jsval \<Rightarrow> store \<Rightarrow> hval \<times> store"
  and parse_list :: "jsval list \<Rightarrow> store \<Rightarrow> hval list \<times> store"
  and parse_props :: "(string \<times> jsval) list \<Rightarrow> store \<Rightarrow> (string \<times> hval) list \<times> store" where
  "parse JUndefined s = (HUndefined, s)"
| "parse JNull s = (HNull, s)"
| "parse (JBool b) s = (HBool b, s)"
| "parse (JNum n) s = (HNum n, s)"
| "parse (JStr str) s = (HStr str, s)"
| "parse (JArr xs) s = (let (vs, s1) = parse_list xs s in alloc (HArr vs) s1)"
| "parse (JObj ps) s = (let (qs, s1) = parse_props ps s in alloc (HObj qs) s1)"
| "parse_list [] s = ([], s)"
| "parse_list (x # xs) s =
     (let (v, s1) = parse x s; (vs, s2) = parse_list xs s1 in (v # vs, s2))"
| "parse_props [] s = ([], s)"
| "parse_props ((k, x) # ps) s =
     (let (v, s1) = parse x s; (qs, s2) = parse_props ps s1 in ((k, v) # qs, s2))"

definition jsonClone_h :: "hval \<Rightarrow> store \<Rightarrow> error + hval \<times> store" where
  "jsonClone_h v s =
     bind_r (stringify s (length s) v) (\<lambda>j.
       if j = JUndefined then Inl SyntaxError else Inr (parse (clone_val j) s))"

text \<open>
  A computation that may not return: \<open>None\<close> when the bound on the number of loop
  iterations is used up, otherwise an error or a value.
\<close>

definition bind_o :: "(error + 'a) option \<Rightarrow> ('a \<Rightarrow> (error + 'b) option) \<Rightarrow> (error + 'b) option" where
  "bind_o m f = (case m of None \<Rightarrow> None | Some (Inl e) \<Rightarrow> Some (Inl e) | Some (Inr v) \<Rightarrow> f v)"

text \<open>
  The callbacks of \<^verbatim>\<open>target.find(t => t.children && t.title === srcNodeCopy.title)\<close> and
  of \<^verbatim>\<open>isDuplicateBookmark\<close>; \<^verbatim>\<open>===\<close> on two references compares the addresses.
\<close>

fun find_folder_h :: "store \<Rightarrow> hval \<Rightarrow> hval list \<Rightarrow> error + hval option" where
  "find_folder_h s title [] = Inr None"
| "find_folder_h s title (t # ts) =
     bind_r (h_get s t ''children'') (\<lambda>children.
       if h_truthy children \<and> h_prop s t ''title'' = title then Inr (Some t)
       else find_folder_h s title ts)"

fun isDuplicateBookmark_h :: "store \<Rightarrow> hval \<Rightarrow> hval list \<Rightarrow> error + bool" where
  "isDuplicateBookmark_h s node [] = Inr False"
| "isDuplicateBookmark_h s node (t # ts) =
     bind_r (h_get s t ''url'') (\<lambda>url.
       if h_truthy url \<and> h_truthy (h_prop s node ''url'') \<and> url = h_prop s node ''url''
          \<and> h_prop s t ''title'' = h_prop s node ''title''
       then Inr True
       else isDuplicateBookmark_h s node ts)"

text \<open>
  \<open>mergeNodes\<close>, lines 404 to 435, one iteration of the loop for each unit of the bound;
  \<open>i\<close> is the position of the iterator in \<open>source\<close>.
\<close>

fun mergeNodes_h :: "nat \<Rightarrow> hval \<Rightarrow> hval \<Rightarrow> nat \<Rightarrow> store \<Rightarrow> (error + store) option" where
  "mergeNodes_h 0 target source i s = None"
| "mergeNodes_h (Suc fuel) target source i s =
     bind_o (Some (for_of s source i)) (\<lambda>next.
       case next of
         None \<Rightarrow> Some (Inr s)
       | Some srcNode \<Rightarrow>
           bind_o (Some (jsonClone_h srcNode s)) (\<lambda>(srcNodeCopy, s1).
           bind_o (Some (h_get s1 srcNodeCopy ''children'')) (\<lambda>children.
             if h_truthy children then
               bind_o (Some (bind_r (h_elems s1 target)
                               (find_folder_h s1 (h_prop s1 srcNodeCopy ''title'')))) (\<lambda>found.
                 case found of
                   Some existingFolderInTarget \<Rightarrow>
                     if h_prop s1 srcNodeCopy ''title'' = HStr ''Bookmarks Bar''
                     then mergeNodes_h fuel target source (i + 1)
                            (h_write s1 existingFolderInTarget ''children'' children)
                     else
                       (let s2 = h_write s1 existingFolderInTarget ''title''
                                   (h_prop s1 srcNodeCopy ''title'')
                        in bind_o (mergeNodes_h fuel (h_prop s2 existingFolderInTarget ''children'')
                                     (h_prop s2 srcNodeCopy ''children'') 0 s2) (\<lambda>s3.
                             mergeNodes_h fuel target source (i + 1) s3))
                 | None \<Rightarrow> mergeNodes_h fuel target source (i + 1) (h_push s1 target srcNodeCopy))
             else
               bind_o (Some (bind_r (h_elems s1 target) (isDuplicateBookmark_h s1 srcNodeCopy)))
                 (\<lambda>dup.
                   if dup then mergeNodes_h fuel target source (i + 1) s1
                   else mergeNodes_h fuel target source (i + 1) (h_push s1 target srcNodeCopy)))))"

text \<open>
  \<open>mergeBookmarkTrees\<close>, lines 383 to 438. An argument that is \<open>undefined\<close> is
  replaced by a new empty array.
\<close>

definition default_array :: "hval \<Rightarrow> store \<Rightarrow> hval \<times> store" where
  "default_array v s = (if v = HUndefined then alloc (HArr []) s else (v, s))"

definition mergeBookmarkTrees_h ::
  "nat \<Rightarrow> hval \<Rightarrow> hval \<Rightarrow> store \<Rightarrow> (error + hval \<times> store) option" where
  "mergeBookmarkTrees_h fuel listA listB s =
     (let (a, sa) = default_array listA s;
          (b, sb) = default_array listB sa
      in bind_o (Some (jsonClone_h a sb)) (\<lambda>(merged, s1).
         bind_o (mergeNodes_h fuel merged b 0 s1) (\<lambda>s2. Some (Inr (merged, s2)))))"

text \<open>
  \<open>mergeExtensionLists\<close>, lines 524 to 644. \<open>L_A\<close>, \<open>L_B\<close> and their concatenation are
  arrays that never leave the function and are not written after their creation; they
  are lists here. \<open>finalResult\<close> and every record are cells of the store. The two maps
  find a reference key by its address.
\<close>

fun is_ref :: "hval \<Rightarrow> bool" where
  "is_ref (HRef a) = True"
| "is_ref v = False"

definition h_records :: "store \<Rightarrow> hval \<Rightarrow> hval list" where
  "h_records s v = (case h_elems s v of Inr xs \<Rightarrow> filter is_ref xs | Inl e \<Rightarrow> [])"

definition h_or :: "hval \<Rightarrow> hval \<Rightarrow> hval" where
  "h_or a b = (if h_truthy a then a else b)"

definition h_present :: "hval \<Rightarrow> bool" where
  "h_present v = (v \<noteq> HUndefined \<and> v \<noteq> HNull)"

definition h_nonempty_url :: "hval \<Rightarrow> bool" where
  "h_nonempty_url v = (h_truthy v \<and> v \<noteq> HStr [])"

definition hasOwnProperty_call_h :: "store \<Rightarrow> hval \<Rightarrow> error + unit" where
  "hasOwnProperty_call_h s obj =
     (if ''hasOwnProperty'' \<in> set (map fst (h_own_props s obj)) then Inl TypeError else Inr ())"

definition overlay_preferred_h :: "hval \<Rightarrow> hval \<Rightarrow> store \<Rightarrow> error + store" where
  "overlay_preferred_h preferredExt mergedExt s =
     bind_r (hasOwnProperty_call_h s preferredExt) (\<lambda>_.
       Inr (fold (\<lambda>key s'.
                   if key \<notin> set special_keys \<and> h_prop s' preferredExt key \<noteq> HUndefined
                   then h_write s' mergedExt key (h_prop s' preferredExt key) else s')
                 (map fst (h_own_props s preferredExt)) s))"

definition restore_base_h :: "hval \<Rightarrow> hval \<Rightarrow> store \<Rightarrow> error + store" where
  "restore_base_h baseExt mergedExt s =
     bind_r (hasOwnProperty_call_h s baseExt) (\<lambda>_.
       Inr (fold (\<lambda>key s'.
                   if h_prop s' mergedExt key = HUndefined \<and> h_prop s' baseExt key \<noteq> HUndefined
                   then h_write s' mergedExt key (h_prop s' baseExt key) else s')
                 (map fst (h_own_props s baseExt)) s))"

text \<open>
  \<^verbatim>\<open>const mergedExt = { ...baseExt }\<close> allocates a new object with the properties of
  \<open>baseExt\<close>; the four assignments and the two loops then write to it.
\<close>

definition mergeRecord_h :: "hval \<Rightarrow> hval \<Rightarrow> store \<Rightarrow> error + hval \<times> store" where
  "mergeRecord_h baseExt preferredExt s =
     (let (mergedExt, s0) = alloc (HObj (h_own_props s baseExt)) s;
          s1 = h_write s0 mergedExt ''id''
                 (h_or (h_prop s0 preferredExt ''id'') (h_prop s0 baseExt ''id''));
          s2 = h_write s1 mergedExt ''name''
                 (if h_present (h_prop s1 preferredExt ''name'')
                  then h_prop s1 preferredExt ''name'' else h_prop s1 baseExt ''name'');
          s3 = h_write s2 mergedExt ''homepageUrl''
                 (if h_present (h_prop s2 preferredExt ''homepageUrl'')
                     \<and> h_prop s2 preferredExt ''homepageUrl'' \<noteq> HStr []
                  then h_prop s2 preferredExt ''homepageUrl''
                  else h_prop s2 baseExt ''homepageUrl'');
          s4 = h_write s3 mergedExt ''updateUrl''
                 (if h_present (h_prop s3 preferredExt ''updateUrl'')
                  then h_prop s3 preferredExt ''updateUrl'' else h_prop s3 baseExt ''updateUrl'')
      in bind_r (overlay_preferred_h preferredExt mergedExt s4) (\<lambda>s5.
         bind_r (restore_base_h baseExt mergedExt s5) (\<lambda>s6. Inr (mergedExt, s6))))"

record merge_state_h =
  heap :: store
  finalResult_h :: hval
  idToIndexMap_h :: "hval \<rightharpoonup> nat"
  urlToIndexMap_h :: "hval \<rightharpoonup> nat"

definition reindex_id_h ::
  "(hval \<rightharpoonup> nat) \<Rightarrow> hval \<Rightarrow> hval \<Rightarrow> nat \<Rightarrow> (hval \<rightharpoonup> nat)" where
  "reindex_id_h idm oldId newId matchedIndex =
     (let m1 =
        (if oldId \<noteq> newId \<or> (h_truthy newId \<and> idm newId \<noteq> Some matchedIndex)
         then
           (let d = (if h_truthy oldId \<and> idm oldId = Some matchedIndex
                     then idm(oldId := None) else idm)
            in if h_truthy newId then d(newId \<mapsto> matchedIndex) else d)
         else idm)
      in if \<not> h_truthy oldId \<and> h_truthy newId \<and> m1 newId \<noteq> Some matchedIndex
         then m1(newId \<mapsto> matchedIndex) else m1)"

definition reindex_url_h ::
  "(hval \<rightharpoonup> nat) \<Rightarrow> hval \<Rightarrow> hval \<Rightarrow> nat \<Rightarrow> (hval \<rightharpoonup> nat)" where
  "reindex_url_h urlm oldUrl newUrl matchedIndex =
     (let m1 =
        (if oldUrl \<noteq> newUrl \<or> (h_nonempty_url newUrl \<and> urlm newUrl \<noteq> Some matchedIndex)
         then
           (let d = (if h_nonempty_url oldUrl \<and> urlm oldUrl = Some matchedIndex
                     then urlm(oldUrl := None) else urlm)
            in if h_nonempty_url newUrl then d(newUrl \<mapsto> matchedIndex) else d)
         else urlm)
      in if (\<not> h_truthy oldUrl \<or> oldUrl = HStr []) \<and> h_nonempty_url newUrl
            \<and> m1 newUrl \<noteq> Some matchedIndex
         then m1(newUrl \<mapsto> matchedIndex) else m1)"

definition h_length :: "store \<Rightarrow> hval \<Rightarrow> nat" where
  "h_length s arr = (case h_elems s arr of Inr xs \<Rightarrow> length xs | Inl e \<Rightarrow> 0)"

definition push_new_h :: "hval \<Rightarrow> merge_state_h \<Rightarrow> merge_state_h" where
  "push_new_h currentExtCopy st =
     (let s1 = h_push (heap st) (finalResult_h st) currentExtCopy;
          newIndex = h_length s1 (finalResult_h st) - 1;
          cid = h_prop s1 currentExtCopy ''id'';
          curl = h_prop s1 currentExtCopy ''homepageUrl''
      in st \<lparr> heap := s1,
              idToIndexMap_h :=
                (if h_truthy cid then (idToIndexMap_h st)(cid \<mapsto> newIndex)
                 else idToIndexMap_h st),
              urlToIndexMap_h :=
                (if h_nonempty_url curl then (urlToIndexMap_h st)(curl \<mapsto> newIndex)
                 else urlToIndexMap_h st) \<rparr>)"

definition unify_h :: "bool \<Rightarrow> hval \<Rightarrow> nat \<Rightarrow> merge_state_h \<Rightarrow> error + merge_state_h" where
  "unify_h isFromListB currentExtCopy matchedIndex st =
     (let targetExtRef = h_index (heap st) (finalResult_h st) matchedIndex;
          oldId = h_prop (heap st) targetExtRef ''id'';
          oldUrl = h_prop (heap st) targetExtRef ''homepageUrl'';
          baseExt = (if isFromListB then targetExtRef else currentExtCopy);
          preferredExt = (if isFromListB then currentExtCopy else targetExtRef)
      in bind_r (mergeRecord_h baseExt preferredExt (heap st)) (\<lambda>(mergedExt, s1).
           let s2 = h_set_index s1 (finalResult_h st) matchedIndex mergedExt
           in Inr (st \<lparr> heap := s2,
                 idToIndexMap_h :=
                   reindex_id_h (idToIndexMap_h st) oldId (h_prop s2 mergedExt ''id'') matchedIndex,
                 urlToIndexMap_h :=
                   reindex_url_h (urlToIndexMap_h st) oldUrl (h_prop s2 mergedExt ''homepageUrl'')
                     matchedIndex \<rparr>)))"

definition lookup_slot_h :: "hval \<Rightarrow> merge_state_h \<Rightarrow> nat option" where
  "lookup_slot_h currentExtCopy st =
     (let cid = h_prop (heap st) currentExtCopy ''id'';
          curl = h_prop (heap st) currentExtCopy ''homepageUrl'';
          existingIdIndex = (if h_truthy cid then idToIndexMap_h st cid else None);
          existingUrlIndex = (if h_nonempty_url curl then urlToIndexMap_h st curl else None)
      in case existingIdIndex of Some i \<Rightarrow> Some i | None \<Rightarrow> existingUrlIndex)"

definition merge_step_h :: "bool \<Rightarrow> hval \<Rightarrow> merge_state_h \<Rightarrow> error + merge_state_h" where
  "merge_step_h isFromListB currentExt st =
     bind_r (jsonClone_h currentExt (heap st)) (\<lambda>(currentExtCopy, s1).
       let st1 = st \<lparr> heap := s1 \<rparr> in
       case lookup_slot_h currentExtCopy st1 of
         Some matchedIndex \<Rightarrow>
           if h_truthy (h_index s1 (finalResult_h st) matchedIndex)
           then unify_h isFromListB currentExtCopy matchedIndex st1
           else Inr (push_new_h currentExtCopy st1)
       | None \<Rightarrow> Inr (push_new_h currentExtCopy st1))"

fun merge_all_h :: "bool \<Rightarrow> hval list \<Rightarrow> merge_state_h \<Rightarrow> error + merge_state_h" where
  "merge_all_h isFromListB [] st = Inr st"
| "merge_all_h isFromListB (currentExt # rest) st =
     bind_r (merge_step_h isFromListB currentExt st) (merge_all_h isFromListB rest)"

definition mergeExtensionLists_h :: "hval \<Rightarrow> hval \<Rightarrow> store \<Rightarrow> error + hval \<times> store" where
  "mergeExtensionLists_h listA listB s =
     (let L_A = h_records s listA;
          L_B = h_records s listB;
          (fr, s0) = alloc (HArr []) s
      in bind_r (merge_all_h False L_A
                   \<lparr> heap = s0, finalResult_h = fr,
                     idToIndexMap_h = Map.empty, urlToIndexMap_h = Map.empty \<rparr>) (\<lambda>st1.
         bind_r (merge_all_h True L_B st1) (\<lambda>st2. Inr (finalResult_h st2, heap st2))))"


section \<open>Predicates of the claims\<close>

text \<open>A plain object, as opposed to an array or a primitive.\<close>

fun is_obj :: "jsval \<Rightarrow> bool" where
  "is_obj (JObj ps) = True"
| "is_obj v = False"

text \<open>
  A value that can serve as a key: truthy, so that the code indexes it, and primitive, so
  that two occurrences are the same key.
\<close>

definition keyable :: "jsval \<Rightarrow> bool" where
  "keyable v = (truthy v \<and> is_prim v)"

text \<open>The ids and the homepage URLs that the records of a list carry as keys.\<close>

definition record_ids :: "jsval list \<Rightarrow> jsval list" where
  "record_ids rs = filter keyable (map (\<lambda>r. read_prop r ''id'') rs)"

definition record_urls :: "jsval list \<Rightarrow> jsval list" where
  "record_urls rs = filter keyable (map (\<lambda>r. read_prop r ''homepageUrl'') rs)"

text \<open>
  The field rules of a unification, as the specification words them, with the one change
  the code forces: \<open>name\<close> and \<open>updateUrl\<close> take the preferred value whenever it is
  neither \<open>undefined\<close> nor \<open>null\<close> (the empty string included); only \<open>homepageUrl\<close>
  also has to be non-empty. \<open>b\<close> is the base side, \<open>p\<close> the preferred side.
\<close>

definition merged_field :: "jsval \<Rightarrow> jsval \<Rightarrow> string \<Rightarrow> jsval" where
  "merged_field b p k =
     (if k = ''id'' then (if truthy (read_prop p k) then read_prop p k else read_prop b k)
      else if k = ''name'' \<or> k = ''updateUrl''
        then (if read_prop p k \<noteq> JUndefined \<and> read_prop p k \<noteq> JNull
              then read_prop p k else read_prop b k)
      else if k = ''homepageUrl''
        then (if read_prop p k \<noteq> JUndefined \<and> read_prop p k \<noteq> JNull \<and> read_prop p k \<noteq> JStr []
              then read_prop p k else read_prop b k)
      else (if read_prop p k \<noteq> JUndefined then read_prop p k else read_prop b k))"

text \<open>
  The two tests of the tree reconciler as predicates: \<open>folder_titled t x\<close> is the test of
  \<^verbatim>\<open>find\<close> (\<open>x\<close> is a folder whose title is \<open>t\<close>), \<open>same_bookmark t n\<close> the test of
  \<^verbatim>\<open>some\<close> (both have a URL, and URL and title agree). \<open>first_index\<close> is what
  \<^verbatim>\<open>find\<close> computes when nothing throws.
\<close>

definition non_null :: "jsval \<Rightarrow> bool" where
  "non_null v = (v \<noteq> JNull \<and> v \<noteq> JUndefined)"

definition folder_titled :: "jsval \<Rightarrow> jsval \<Rightarrow> bool" where
  "folder_titled t x = (truthy (read_prop x ''children'') \<and> strict_eq (read_prop x ''title'') t)"

definition same_bookmark :: "jsval \<Rightarrow> jsval \<Rightarrow> bool" where
  "same_bookmark t n =
     (truthy (read_prop t ''url'') \<and> truthy (read_prop n ''url'')
      \<and> strict_eq (read_prop t ''url'') (read_prop n ''url'')
      \<and> strict_eq (read_prop t ''title'') (read_prop n ''title''))"

fun first_index :: "('a \<Rightarrow> bool) \<Rightarrow> 'a list \<Rightarrow> nat option" where
  "first_index P [] = None"
| "first_index P (x # xs) = (if P x then Some 0 else map_option Suc (first_index P xs))"

text \<open>The titles of the folders among a list of siblings.\<close>

definition folder_titles :: "jsval list \<Rightarrow> jsval list" where
  "folder_titles ns =
     map (\<lambda>x. read_prop x ''title'') (filter (\<lambda>x. truthy (read_prop x ''children'')) ns)"

text \<open>
  Forests on which merging a forest with itself changes nothing. Every node is a plain
  JSON object. A folder (truthy \<open>children\<close>) has an own primitive title; unless it is
  titled \<open>Bookmarks Bar\<close>, its children are an array of such nodes in which no two folders
  have the same title. Any other node is a leaf with a non-empty primitive URL and a
  primitive title.
\<close>

lemma size_read_prop_elem:
  "read_prop n k = JArr cs \<Longrightarrow> x \<in> set cs \<Longrightarrow> size x < size n"
proof -
  assume r: "read_prop n k = JArr cs" and x: "x \<in> set cs"
  have "get_prop n k = Inr (JArr cs)" using r by (cases n) simp_all
  then have "size (JArr cs) < size n" by (rule size_get_prop) simp
  moreover have "size x < size (JArr cs)" using x by (induction cs) auto
  ultimately show ?thesis by simp
qed

function wf_node :: "jsval \<Rightarrow> bool" where
  "wf_node (JObj ps) =
     (is_json (JObj ps) \<and>
      (if truthy (read_prop (JObj ps) ''children'') then
         is_prim (read_prop (JObj ps) ''title'') \<and> read_prop (JObj ps) ''title'' \<noteq> JUndefined \<and>
         (read_prop (JObj ps) ''title'' = JStr ''Bookmarks Bar'' \<or>
          (case read_prop (JObj ps) ''children'' of
             JArr cs \<Rightarrow> list_all wf_node cs \<and> distinct (folder_titles cs)
           | _ \<Rightarrow> False))
       else truthy (read_prop (JObj ps) ''url'') \<and> is_prim (read_prop (JObj ps) ''url'')
            \<and> is_prim (read_prop (JObj ps) ''title'')))"
| "wf_node JUndefined = False"
| "wf_node JNull = False"
| "wf_node (JBool b) = False"
| "wf_node (JNum i) = False"
| "wf_node (JStr s) = False"
| "wf_node (JArr xs) = False"
  by pat_completeness auto
termination
proof (relation "measure size", goal_cases)
  case 1
  show ?case by simp
next
  case (2 ps cs x)
  have "size x < size (JObj ps)" using 2(2,3) by (rule size_read_prop_elem)
  then show ?case by simp
qed

definition wf_forest :: "jsval list \<Rightarrow> bool" where
  "wf_forest ns = (list_all wf_node ns \<and> distinct (folder_titles ns))"

lemma size_iter_item:
  assumes "iter_items (read_prop n k) = Inr items" and "x \<in> set items"
  shows "size x < size n"
proof (cases "read_prop n k")
  case (JArr cs)
  then have "items = cs" using assms(1) by simp
  then show ?thesis using JArr assms(2) size_read_prop_elem by blast
next
  case (JStr s)
  then have "size x = 0" using assms by auto
  moreover have "is_obj n" using JStr by (cases n) simp_all
  then have "0 < size n" by (cases n) simp_all
  ultimately show ?thesis by simp
qed (use assms in auto)

text \<open>
  The children lists that the merge can put in place of the children of a base
  \<open>Bookmarks Bar\<close> folder: those of an incoming folder of that title, at the top level or
  inside incoming folders of other titles (the merge descends into those, and only those).
\<close>

function bb_children :: "jsval \<Rightarrow> jsval list" where
  "bb_children (JObj ps) =
     (if truthy (read_prop (JObj ps) ''children'') then
        (if read_prop (JObj ps) ''title'' = JStr ''Bookmarks Bar''
         then [read_prop (JObj ps) ''children'']
         else (case iter_items (read_prop (JObj ps) ''children'') of
                 Inr items \<Rightarrow> concat (map bb_children items)
               | Inl e \<Rightarrow> []))
      else [])"
| "bb_children JUndefined = []"
| "bb_children JNull = []"
| "bb_children (JBool b) = []"
| "bb_children (JNum i) = []"
| "bb_children (JStr s) = []"
| "bb_children (JArr xs) = []"
  by pat_completeness auto
termination
proof (relation "measure size", goal_cases)
  case 1
  show ?case by simp
next
  case (2 ps items x)
  have "size x < size (JObj ps)" using 2(3,4) by (rule size_iter_item)
  then show ?case by simp
qed

definition incoming_bars :: "jsval list \<Rightarrow> jsval list" where
  "incoming_bars srcs = concat (map (\<lambda>s. bb_children (clone_val s)) srcs)"

text \<open>
  \<open>kept S n r\<close>: the base node \<open>n\<close> is still there as \<open>r\<close>. A node that is not a folder
  is unchanged. A folder is still a plain object, every property other than \<open>children\<close>
  reads as before, and its children are an extension of the old ones: every old child is
  kept, in its place, and new ones come after. The one exception is a folder titled
  \<open>Bookmarks Bar\<close>, whose children are either untouched or one of the lists \<open>S\<close>.
\<close>

function kept :: "jsval list \<Rightarrow> jsval \<Rightarrow> jsval \<Rightarrow> bool" where
  "kept S (JObj ps) r =
     (if truthy (read_prop (JObj ps) ''children'') then
        is_obj r
        \<and> list_all (\<lambda>k. k = ''children'' \<or> read_prop r k = read_prop (JObj ps) k)
             (own_keys (JObj ps) @ own_keys r)
        \<and> (if read_prop (JObj ps) ''title'' = JStr ''Bookmarks Bar''
           then read_prop r ''children'' = read_prop (JObj ps) ''children''
                \<or> read_prop r ''children'' \<in> set S
           else (case read_prop (JObj ps) ''children'' of
                   JArr cs \<Rightarrow>
                     (case read_prop r ''children'' of
                        JArr rs \<Rightarrow> length cs \<le> length rs
                                   \<and> list_all2 (kept S) cs (take (length cs) rs)
                      | _ \<Rightarrow> False)
                 | c \<Rightarrow> read_prop r ''children'' = c))
      else r = JObj ps)"
| "kept S JUndefined r = (r = JUndefined)"
| "kept S JNull r = (r = JNull)"
| "kept S (JBool b) r = (r = JBool b)"
| "kept S (JNum i) r = (r = JNum i)"
| "kept S (JStr s) r = (r = JStr s)"
| "kept S (JArr xs) r = (r = JArr xs)"
  by pat_completeness auto
termination
proof (relation "measure (\<lambda>(S, n, r). size n)", goal_cases)
  case 1
  show ?case by simp
next
  case (2 S ps r cs rs x y)
  have "size x < size (JObj ps)" using 2(3) 2(5) by (rule size_read_prop_elem)
  then show ?case by simp
qed


definition forest_kept :: "jsval list \<Rightarrow> jsval list \<Rightarrow> jsval list \<Rightarrow> bool" where
  "forest_kept S ns rs = (length ns \<le> length rs \<and> list_all2 (kept S) ns (take (length ns) rs))"

definition kept_children :: "jsval list \<Rightarrow> jsval \<Rightarrow> jsval \<Rightarrow> bool" where
  "kept_children S c c' =
     (case c of
        JArr cs \<Rightarrow> (case c' of JArr rs \<Rightarrow> forest_kept S cs rs | _ \<Rightarrow> False)
      | _ \<Rightarrow> c' = c)"





text \<open>
  The invariant that links \<open>finalResult\<close> and \<open>idToIndexMap\<close>: a slot with a usable id
  is indexed under it, and every entry of the map points at a slot with that id.
\<close>

definition id_index_ok :: "jsval list \<Rightarrow> (jsval \<rightharpoonup> nat) \<Rightarrow> bool" where
  "id_index_ok fr idm =
     ((\<forall>i<length fr. keyable (read_prop (fr ! i) ''id'') \<longrightarrow> idm (read_prop (fr ! i) ''id'') = Some i)
      \<and> (\<forall>x i. idm x = Some i \<longrightarrow> i < length fr \<and> read_prop (fr ! i) ''id'' = x \<and> keyable x))"




text \<open>
  A record of a list that \<open>diffById\<close> can read: not \<open>null\<close> or \<open>undefined\<close>, and with
  a primitive id (an absent id reads as \<open>undefined\<close>, which is one more id). \<open>id_set\<close> is
  the set of the ids of a list.
\<close>

definition has_id :: "jsval \<Rightarrow> bool" where
  "has_id item = (non_null item \<and> is_prim (read_prop item ''id''))"

definition id_set :: "jsval list \<Rightarrow> jsval set" where
  "id_set items = set (map (\<lambda>item. read_prop item ''id'') items)"




text \<open>
  The cells that a call allocates have the addresses from \<open>n0\<close> on, where \<open>n0\<close> is the
  number of cells before the call. A value is fresh when it is a primitive or such an
  address; \<open>region_ok\<close> says that the new cells hold fresh values only, \<open>unchanged\<close> that
  the old cells are as they were, and \<open>reaches s v a\<close> that the cell at \<open>a\<close> can be
  reached from the value \<open>v\<close> by following references in the store \<open>s\<close>.
\<close>

fun fresh_val :: "nat \<Rightarrow> hval \<Rightarrow> bool" where
  "fresh_val n0 (HRef a) = (n0 \<le> a)"
| "fresh_val n0 v = True"

fun cell_vals :: "cell \<Rightarrow> hval list" where
  "cell_vals (HArr xs) = xs"
| "cell_vals (HObj ps) = map snd ps"

definition region_ok :: "nat \<Rightarrow> store \<Rightarrow> bool" where
  "region_ok n0 s = (n0 \<le> length s \<and> list_all (\<lambda>c. list_all (fresh_val n0) (cell_vals c)) (drop n0 s))"

definition unchanged :: "nat \<Rightarrow> store \<Rightarrow> store \<Rightarrow> bool" where
  "unchanged n0 s s' = (take n0 s' = take n0 s)"

inductive reaches :: "store \<Rightarrow> hval \<Rightarrow> nat \<Rightarrow> bool" for s :: store where
  root: "reaches s (HRef a) a"
| step: "reaches s v a \<Longrightarrow> h_cell s a = Some c \<Longrightarrow> HRef b \<in> set (cell_vals c) \<Longrightarrow> reaches s v b"

definition state_ok :: "nat \<Rightarrow> merge_state_h \<Rightarrow> bool" where
  "state_ok n0 st = (region_ok n0 (heap st) \<and> fresh_val n0 (finalResult_h st))"

section \<open>Evaluation rules\<close>

lemma bind_r_simps [simp]:
  "bind_r (Inl e) f = Inl e"
  "bind_r (Inr v) f = f v"
  by (simp_all add: bind_r_def)

lemmas ext_defs =
  mergeExtensionLists_def merge_step_def lookup_slot_def unify_def push_new_def
  mergeRecord_def assign_preferred_def overlay_preferred_def restore_base_def hasOwnProperty_call_def own_keys_def
  special_keys_def reindex_id_def reindex_url_def map_get_def map_set_def map_delete_def
  nth_js_def initial_state_def or_js_def present_def nonempty_url_def strict_eq_def Let_def

lemmas tree_defs =
  mergeBookmarkTrees_def jsonClone_def strict_eq_def shift_index_def Let_def

section \<open>Malformed arguments\<close>

lemma mergeExtensionLists_non_array:
  "filter_records listA = [] \<Longrightarrow>
   mergeExtensionLists listA listB = mergeExtensionLists (JArr []) listB"
  by (simp add: mergeExtensionLists_def)

text \<open>
  Claim C2. A base or incoming argument that is not an array is to be treated as the empty
  list, by both reconcilers, and neither is to throw. \<open>mergeExtensionLists\<close> does that with
  its \<^verbatim>\<open>Array.isArray\<close> guard. \<open>mergeBookmarkTrees\<close> has no guard: with \<open>null\<close> as the
  incoming forest the \<^verbatim>\<open>for ... of\<close> loop throws a \<open>TypeError\<close>, and with \<open>null\<close> as
  the base forest and nothing incoming it returns \<open>null\<close>, where the empty list gives
  the empty list.
\<close>

theorem mergeBookmarkTrees_null_incoming:
  "mergeBookmarkTrees (JArr []) JNull = Inl TypeError
   \<and> mergeBookmarkTrees (JArr []) (JArr []) = Inr (JArr [])
   \<and> mergeBookmarkTrees JNull (JArr []) = Inr JNull
   \<and> mergeExtensionLists (JArr []) JNull = Inr []
   \<and> mergeExtensionLists JNull (JArr []) = Inr []"
  by (simp add: tree_defs ext_defs)

section \<open>The merged record, field by field\<close>

lemma is_obj_set_prop [simp]: "is_obj (set_prop m k v) = is_obj m"
  by (cases m) simp_all

lemma read_set_prop:
  "is_obj m \<Longrightarrow> read_prop (set_prop m k v) k' = (if k' = k then v else read_prop m k')"
  by (cases m) (simp_all add: update_conv')

lemma read_prop_own_keys: "read_prop p k \<noteq> JUndefined \<Longrightarrow> k \<in> set (own_keys p)"
proof (cases p)
  case (JObj ps)
  assume "read_prop p k \<noteq> JUndefined"
  then obtain v where "map_of ps k = Some v" using JObj by (auto split: option.splits)
  then have "(k, v) \<in> set ps" by (rule map_of_SomeD)
  then have "k \<in> fst ` set ps" by force
  then show ?thesis using JObj by (simp add: own_keys_def)
qed simp_all

lemma overlay_fold_obj:
  "is_obj m \<Longrightarrow>
   is_obj (fold (\<lambda>key m. if key \<notin> S \<and> read_prop p key \<noteq> JUndefined
                        then set_prop m key (read_prop p key) else m) ks m)"
  by (induction ks arbitrary: m) simp_all

lemma overlay_fold_read:
  "is_obj m \<Longrightarrow>
   read_prop (fold (\<lambda>key m. if key \<notin> S \<and> read_prop p key \<noteq> JUndefined
                        then set_prop m key (read_prop p key) else m) ks m) k
     = (if k \<in> set ks \<and> k \<notin> S \<and> read_prop p k \<noteq> JUndefined
        then read_prop p k else read_prop m k)"
proof (induction ks arbitrary: m)
  case Nil
  then show ?case by simp
next
  case (Cons a ks)
  show ?case
  proof (cases "a \<notin> S \<and> read_prop p a \<noteq> JUndefined")
    case True
    have "is_obj (set_prop m a (read_prop p a))" using Cons.prems by simp
    from Cons.IH [OF this] True show ?thesis
      by (simp add: read_set_prop [OF Cons.prems])
  next
    case False
    from Cons.IH [OF Cons.prems] False show ?thesis by auto
  qed
qed

lemma restore_fold_id:
  "(\<And>k. read_prop m k = JUndefined \<Longrightarrow> read_prop b k = JUndefined) \<Longrightarrow>
   fold (\<lambda>key m. if read_prop m key = JUndefined \<and> read_prop b key \<noteq> JUndefined
                 then set_prop m key (read_prop b key) else m) ks m = m"
  by (induction ks) auto

lemma is_obj_assign_preferred: "is_obj (assign_preferred b p)"
  unfolding assign_preferred_def Let_def by (simp del: set_prop.simps)

lemma read_own_props: "read_prop (JObj (own_props b)) k = read_prop b k"
  by (cases b) simp_all

lemma read_assign_preferred:
  "read_prop (assign_preferred b p) k =
     (if k \<in> set special_keys then merged_field b p k else read_prop b k)"
proof -
  define v1 where "v1 = or_js (read_prop p ''id'') (read_prop b ''id'')"
  define v2 where "v2 = (if present (read_prop p ''name'') then read_prop p ''name''
                         else read_prop b ''name'')"
  define v3 where "v3 = (if present (read_prop p ''homepageUrl'')
                            \<and> read_prop p ''homepageUrl'' \<noteq> JStr []
                         then read_prop p ''homepageUrl'' else read_prop b ''homepageUrl'')"
  define v4 where "v4 = (if present (read_prop p ''updateUrl'') then read_prop p ''updateUrl''
                         else read_prop b ''updateUrl'')"
  define m0 where "m0 = JObj (own_props b)"
  have obj0: "is_obj m0" by (simp add: m0_def)
  have rb: "read_prop m0 k = read_prop b k" unfolding m0_def by (rule read_own_props)
  have eq: "assign_preferred b p
      = set_prop (set_prop (set_prop (set_prop m0 ''id'' v1) ''name'' v2) ''homepageUrl'' v3)
          ''updateUrl'' v4"
    unfolding assign_preferred_def Let_def m0_def v1_def v2_def v3_def v4_def by (rule refl)
  have r: "read_prop (assign_preferred b p) k
      = (if k = ''updateUrl'' then v4 else if k = ''homepageUrl'' then v3
         else if k = ''name'' then v2 else if k = ''id'' then v1 else read_prop b k)"
    unfolding eq by (simp add: read_set_prop rb obj0)
  consider "k = ''id''" | "k = ''name''" | "k = ''homepageUrl''" | "k = ''updateUrl''"
    | "k \<notin> set special_keys" by (auto simp: special_keys_def)
  then show ?thesis
  proof cases
    case 1 then show ?thesis unfolding r
      by (simp add: merged_field_def special_keys_def v1_def or_js_def)
  next
    case 2 then show ?thesis unfolding r
      by (simp add: merged_field_def special_keys_def v2_def present_def)
  next
    case 3 then show ?thesis unfolding r
      by (simp add: merged_field_def special_keys_def v3_def present_def)
  next
    case 4 then show ?thesis unfolding r
      by (simp add: merged_field_def special_keys_def v4_def present_def)
  next
    case 5 then show ?thesis unfolding r by (simp add: special_keys_def)
  qed
qed

lemma mergeRecord_returns:
  "(\<exists>mg. mergeRecord b p = Inr mg)
   = (''hasOwnProperty'' \<notin> set (own_keys p) \<and> ''hasOwnProperty'' \<notin> set (own_keys b))"
proof (cases "''hasOwnProperty'' \<in> set (own_keys p)")
  case True
  then show ?thesis
    by (simp add: mergeRecord_def overlay_preferred_def hasOwnProperty_call_def)
next
  case False
  then show ?thesis
    by (cases "''hasOwnProperty'' \<in> set (own_keys b)")
       (simp_all add: mergeRecord_def overlay_preferred_def restore_base_def
          hasOwnProperty_call_def)
qed

lemma mergeRecord_fields:
  assumes "mergeRecord b p = Inr mg"
  shows "is_obj mg" and "read_prop mg k = merged_field b p k"
proof -
  let ?F = "\<lambda>key m. if key \<notin> set special_keys \<and> read_prop p key \<noteq> JUndefined
                        then set_prop m key (read_prop p key) else m"
  define m4 where "m4 = assign_preferred b p"
  define m5 where "m5 = fold ?F (own_keys p) m4"
  have obj4: "is_obj m4" unfolding m4_def by (rule is_obj_assign_preferred)
  have obj5: "is_obj m5" unfolding m5_def using obj4 by (rule overlay_fold_obj)
  have r5: "read_prop m5 k = merged_field b p k" for k
  proof (cases "k \<in> set special_keys")
    case True
    then show ?thesis
      unfolding m5_def overlay_fold_read [OF obj4] by (simp add: m4_def read_assign_preferred)
  next
    case False
    then have mf: "merged_field b p k
        = (if read_prop p k \<noteq> JUndefined then read_prop p k else read_prop b k)"
      by (simp add: merged_field_def special_keys_def)
    show ?thesis
      unfolding m5_def overlay_fold_read [OF obj4] mf
      using False read_prop_own_keys [of p k] by (simp add: m4_def read_assign_preferred)
  qed
  have noop: "read_prop m5 k = JUndefined \<Longrightarrow> read_prop b k = JUndefined" for k
    unfolding r5 by (simp add: merged_field_def split: if_splits)
  have nop: "''hasOwnProperty'' \<notin> set (own_keys p)" and nob: "''hasOwnProperty'' \<notin> set (own_keys b)"
    using mergeRecord_returns [of b p] assms by simp_all
  have o: "overlay_preferred p m4 = Inr m5"
    by (simp add: overlay_preferred_def hasOwnProperty_call_def nop m5_def)
  have "fold (\<lambda>key m. if read_prop m key = JUndefined \<and> read_prop b key \<noteq> JUndefined
                 then set_prop m key (read_prop b key) else m) (own_keys b) m5 = m5"
    by (rule restore_fold_id) (rule noop)
  then have r: "restore_base b m5 = Inr m5"
    by (simp add: restore_base_def hasOwnProperty_call_def nob)
  have "mergeRecord b p = Inr m5" unfolding mergeRecord_def m4_def [symmetric] o using r by simp
  then have "mg = m5" using assms by simp
  then show "is_obj mg" and "read_prop mg k = merged_field b p k" using obj5 r5 by simp_all
qed

section \<open>The id index stays exact\<close>

lemma id_index_okI:
  assumes "\<And>i. i < length fr \<Longrightarrow> keyable (read_prop (fr ! i) ''id'')
             \<Longrightarrow> idm (read_prop (fr ! i) ''id'') = Some i"
    and "\<And>x i. idm x = Some i \<Longrightarrow> i < length fr \<and> read_prop (fr ! i) ''id'' = x \<and> keyable x"
  shows "id_index_ok fr idm"
  using assms unfolding id_index_ok_def by blast

lemma id_index_ok_slot:
  "id_index_ok fr idm \<Longrightarrow> i < length fr \<Longrightarrow> keyable (read_prop (fr ! i) ''id'')
   \<Longrightarrow> idm (read_prop (fr ! i) ''id'') = Some i"
  unfolding id_index_ok_def by blast

lemma id_index_ok_entry:
  "id_index_ok fr idm \<Longrightarrow> idm x = Some i
   \<Longrightarrow> i < length fr \<and> read_prop (fr ! i) ''id'' = x \<and> keyable x"
  unfolding id_index_ok_def by blast

lemma id_index_ok_push:
  assumes ok: "id_index_ok fr idm"
    and nomatch: "truthy (read_prop c ''id'') \<Longrightarrow> map_get idm (read_prop c ''id'') = None"
  shows "id_index_ok (fr @ [c])
           (if truthy (read_prop c ''id'') then map_set idm (read_prop c ''id'') (length fr) else idm)"
proof (cases "keyable (read_prop c ''id'')")
  case True
  then have n: "idm (read_prop c ''id'') = None"
    using nomatch by (simp add: keyable_def map_get_def)
  have eq: "(if truthy (read_prop c ''id'') then map_set idm (read_prop c ''id'') (length fr) else idm)
      = idm(read_prop c ''id'' \<mapsto> length fr)"
    using True by (simp add: keyable_def map_set_def)
  show ?thesis unfolding eq
  proof (rule id_index_okI)
    fix i assume i: "i < length (fr @ [c])" and k: "keyable (read_prop ((fr @ [c]) ! i) ''id'')"
    show "(idm(read_prop c ''id'' \<mapsto> length fr)) (read_prop ((fr @ [c]) ! i) ''id'') = Some i"
    proof (cases "i < length fr")
      case lt: True
      then have "keyable (read_prop (fr ! i) ''id'')" using k by (simp add: nth_append)
      then have s: "idm (read_prop (fr ! i) ''id'') = Some i" using ok lt by (rule id_index_ok_slot [rotated 2])
      then have "read_prop (fr ! i) ''id'' \<noteq> read_prop c ''id''" using n by auto
      then show ?thesis using lt s by (simp add: nth_append)
    next
      case False
      then have "i = length fr" using i by simp
      then show ?thesis by simp
    qed
  next
    fix x i assume a: "(idm(read_prop c ''id'' \<mapsto> length fr)) x = Some i"
    show "i < length (fr @ [c]) \<and> read_prop ((fr @ [c]) ! i) ''id'' = x \<and> keyable x"
    proof (cases "x = read_prop c ''id''")
      case eqx: True
      then have "i = length fr" using a by simp
      then show ?thesis using eqx True by simp
    next
      case False
      then have "idm x = Some i" using a by simp
      then have "i < length fr \<and> read_prop (fr ! i) ''id'' = x \<and> keyable x"
        using ok by (rule id_index_ok_entry [rotated])
      then show ?thesis by (simp add: nth_append)
    qed
  qed
next
  case False
  have eq: "(if truthy (read_prop c ''id'') then map_set idm (read_prop c ''id'') (length fr) else idm)
      = idm"
    using False by (simp add: keyable_def map_set_def)
  show ?thesis unfolding eq
  proof (rule id_index_okI)
    fix i assume i: "i < length (fr @ [c])" and k: "keyable (read_prop ((fr @ [c]) ! i) ''id'')"
    have lt: "i < length fr"
    proof (rule ccontr)
      assume "\<not> i < length fr"
      then have "i = length fr" using i by simp
      then show False using k False by simp
    qed
    then have "keyable (read_prop (fr ! i) ''id'')" using k by (simp add: nth_append)
    then have "idm (read_prop (fr ! i) ''id'') = Some i" using ok lt by (rule id_index_ok_slot [rotated 2])
    then show "idm (read_prop ((fr @ [c]) ! i) ''id'') = Some i" using lt by (simp add: nth_append)
  next
    fix x i assume "idm x = Some i"
    then have "i < length fr \<and> read_prop (fr ! i) ''id'' = x \<and> keyable x"
      using ok by (rule id_index_ok_entry [rotated])
    then show "i < length (fr @ [c]) \<and> read_prop ((fr @ [c]) ! i) ''id'' = x \<and> keyable x"
      by (simp add: nth_append)
  qed
qed

lemma reindex_id_same:
  assumes ok: "id_index_ok fr idm" and m: "m < length fr"
  shows "reindex_id idm (read_prop (fr ! m) ''id'') (read_prop (fr ! m) ''id'') m = idm"
proof -
  define x where "x = read_prop (fr ! m) ''id''"
  have goal: "reindex_id idm x x m = idm"
  proof (cases "is_prim x")
    case prim: True
    show ?thesis
    proof (cases "truthy x")
      case True
      then have "idm x = Some m" using ok m prim unfolding x_def
        by (intro id_index_ok_slot) (simp_all add: keyable_def)
      then show ?thesis using True prim
        by (simp add: reindex_id_def strict_eq_def map_get_def)
    next
      case False
      then show ?thesis using prim by (simp add: reindex_id_def strict_eq_def)
    qed
  next
    case False
    then show ?thesis
      by (simp add: reindex_id_def strict_eq_def map_get_def map_set_def map_delete_def)
  qed
  then show ?thesis unfolding x_def .
qed

lemma reindex_id_fresh:
  assumes ok: "id_index_ok fr idm" and m: "m < length fr"
    and ne: "y \<noteq> read_prop (fr ! m) ''id''"
  shows "reindex_id idm (read_prop (fr ! m) ''id'') y m
     = (if keyable y
        then (if keyable (read_prop (fr ! m) ''id'') then idm(read_prop (fr ! m) ''id'' := None) else idm)(y \<mapsto> m)
        else (if keyable (read_prop (fr ! m) ''id'') then idm(read_prop (fr ! m) ''id'' := None) else idm))"
proof -
  define x where "x = read_prop (fr ! m) ''id''"
  have xm: "keyable x \<Longrightarrow> idm x = Some m" using ok m unfolding x_def
    by (intro id_index_ok_slot)
  have ns: "\<not> strict_eq x y" using ne by (auto simp: strict_eq_def x_def)
  define d where "d = (if truthy x \<and> map_get idm x = Some m then map_delete idm x else idm)"
  have d: "d = (if keyable x then idm(x := None) else idm)"
  proof (cases "keyable x")
    case True
    then show ?thesis using xm by (simp add: d_def keyable_def map_get_def map_delete_def)
  next
    case False
    then show ?thesis by (auto simp: d_def keyable_def map_get_def map_delete_def)
  qed
  define m1 where "m1 = (if truthy y then map_set d y m else d)"
  have m1: "m1 = (if keyable y then d(y \<mapsto> m) else d)"
    by (auto simp: m1_def keyable_def map_set_def)
  have step1: "reindex_id idm x y m
      = (if \<not> truthy x \<and> truthy y \<and> map_get m1 y \<noteq> Some m then map_set m1 y m else m1)"
    unfolding reindex_id_def Let_def m1_def d_def using ns by simp
  have "(if \<not> truthy x \<and> truthy y \<and> map_get m1 y \<noteq> Some m then map_set m1 y m else m1) = m1"
  proof (cases "keyable y")
    case True
    then have "map_get m1 y = Some m" by (simp add: m1 map_get_def keyable_def)
    then show ?thesis by simp
  next
    case False
    then show ?thesis by (auto simp: map_set_def keyable_def)
  qed
  then have "reindex_id idm x y m = m1" using step1 by simp
  then show ?thesis unfolding m1 d x_def .
qed

lemma id_index_ok_reindex:
  assumes ok: "id_index_ok fr idm" and m: "m < length fr"
    and mg: "read_prop mg ''id'' = y"
    and cond: "y = read_prop (fr ! m) ''id'' \<or> \<not> keyable y \<or> idm y = None"
  shows "id_index_ok (fr[m := mg]) (reindex_id idm (read_prop (fr ! m) ''id'') y m)"
proof (cases "y = read_prop (fr ! m) ''id''")
  case True
  have "id_index_ok (fr[m := mg]) idm"
  proof (rule id_index_okI)
    fix i assume i: "i < length (fr[m := mg])" and k: "keyable (read_prop (fr[m := mg] ! i) ''id'')"
    have r: "read_prop (fr[m := mg] ! i) ''id'' = read_prop (fr ! i) ''id''"
      using m mg True by (cases "i = m") simp_all
    show "idm (read_prop (fr[m := mg] ! i) ''id'') = Some i"
      unfolding r using ok i k r by (intro id_index_ok_slot) simp_all
  next
    fix x i assume "idm x = Some i"
    then have e: "i < length fr \<and> read_prop (fr ! i) ''id'' = x \<and> keyable x"
      using ok by (rule id_index_ok_entry [rotated])
    have r: "read_prop (fr[m := mg] ! i) ''id'' = read_prop (fr ! i) ''id''"
      using m mg True by (cases "i = m") simp_all
    show "i < length (fr[m := mg]) \<and> read_prop (fr[m := mg] ! i) ''id'' = x \<and> keyable x"
      unfolding r using e by simp
  qed
  then show ?thesis using True reindex_id_same [OF ok m] by simp
next
  case False
  define x where "x = read_prop (fr ! m) ''id''"
  define d where "d = (if keyable x then idm(x := None) else idm)"
  define r where "r = (if keyable y then d(y \<mapsto> m) else d)"
  have fresh: "keyable y \<Longrightarrow> idm y = None" using cond False by auto
  have xm: "keyable x \<Longrightarrow> idm x = Some m" using ok m unfolding x_def
    by (intro id_index_ok_slot)
  have req: "reindex_id idm (read_prop (fr ! m) ''id'') y m = r"
    unfolding r_def d_def x_def using reindex_id_fresh [OF ok m False] by simp
  have "id_index_ok (fr[m := mg]) r"
  proof (rule id_index_okI)
    fix i assume i: "i < length (fr[m := mg])" and k: "keyable (read_prop (fr[m := mg] ! i) ''id'')"
    show "r (read_prop (fr[m := mg] ! i) ''id'') = Some i"
    proof (cases "i = m")
      case True
      then have "read_prop (fr[m := mg] ! i) ''id'' = y" using m mg by simp
      moreover have "keyable y" using k calculation by simp
      ultimately show ?thesis using True by (simp add: r_def)
    next
      case ne: False
      define z where "z = read_prop (fr ! i) ''id''"
      have rz: "read_prop (fr[m := mg] ! i) ''id'' = z" using ne by (simp add: z_def)
      have kz: "keyable z" using k rz by simp
      have z: "idm z = Some i" unfolding z_def using ok i kz
        by (intro id_index_ok_slot) (simp_all add: z_def)
      have zy: "keyable y \<Longrightarrow> z \<noteq> y" using fresh z by auto
      have zx: "keyable x \<Longrightarrow> z \<noteq> x" using xm z ne by auto
      have "d z = Some i" using z zx by (simp add: d_def)
      then have "r z = Some i" using zy by (simp add: r_def)
      then show ?thesis unfolding rz .
    qed
  next
    fix v i assume a: "r v = Some i"
    show "i < length (fr[m := mg]) \<and> read_prop (fr[m := mg] ! i) ''id'' = v \<and> keyable v"
    proof (cases "keyable y \<and> v = y")
      case True
      then have "i = m" using a by (simp add: r_def)
      then show ?thesis using True m mg by simp
    next
      case False
      then have dv: "d v = Some i" using a by (auto simp: r_def split: if_splits)
      then have iv: "idm v = Some i" by (auto simp: d_def split: if_splits)
      then have p: "i < length fr \<and> read_prop (fr ! i) ''id'' = v \<and> keyable v"
        using ok by (rule id_index_ok_entry [rotated])
      have "i \<noteq> m"
      proof
        assume "i = m"
        then have "v = x" using p by (simp add: x_def)
        then show False using dv p by (simp add: d_def)
      qed
      then show ?thesis using p by simp
    qed
  qed
  then show ?thesis using req by simp
qed

lemma or_js_cases: "or_js a b = a \<and> truthy a \<or> or_js a b = b \<and> \<not> truthy a"
  by (simp add: or_js_def)

lemma merged_id: "merged_field b p ''id'' = or_js (read_prop p ''id'') (read_prop b ''id'')"
  by (simp add: merged_field_def or_js_def)

lemma is_obj_truthy: "is_obj v \<Longrightarrow> truthy v"
  by (cases v) simp_all

lemma is_record_truthy: "is_record v \<Longrightarrow> truthy v"
  by (cases v) simp_all

lemma is_record_clone_val: "is_record v \<Longrightarrow> is_record (clone_val v)"
  by (cases v) simp_all

lemma unify_in_range:
  "m < length (finalResult st) \<Longrightarrow>
   unify fromB c m st =
     bind_r (mergeRecord (if fromB then finalResult st ! m else c)
                         (if fromB then c else finalResult st ! m))
       (\<lambda>mg. Inr \<lparr> finalResult = (finalResult st)[m := mg],
                 idToIndexMap = reindex_id (idToIndexMap st)
                    (read_prop (finalResult st ! m) ''id'') (read_prop mg ''id'') m,
                 urlToIndexMap = reindex_url (urlToIndexMap st)
                    (read_prop (finalResult st ! m) ''homepageUrl'')
                    (read_prop mg ''homepageUrl'') m \<rparr>)"
  by (simp add: unify_def nth_js_def Let_def)

lemma unify_keeps_index:
  assumes ok: "id_index_ok (finalResult st) (idToIndexMap st)"
    and tr: "list_all truthy (finalResult st)"
    and look: "lookup_slot c st = Some m"
    and m: "m < length (finalResult st)"
    and u: "unify fromB c m st = Inr st'"
  shows "id_index_ok (finalResult st') (idToIndexMap st') \<and> list_all truthy (finalResult st')"
proof -
  define fr where "fr = finalResult st"
  define idm where "idm = idToIndexMap st"
  define t where "t = fr ! m"
  define bs where "bs = (if fromB then t else c)"
  define pf where "pf = (if fromB then c else t)"
  have u': "bind_r (mergeRecord bs pf)
       (\<lambda>mg. Inr \<lparr> finalResult = fr[m := mg],
                 idToIndexMap = reindex_id idm (read_prop t ''id'') (read_prop mg ''id'') m,
                 urlToIndexMap = reindex_url (urlToIndexMap st) (read_prop t ''homepageUrl'')
                    (read_prop mg ''homepageUrl'') m \<rparr>) = Inr st'"
    using u unfolding unify_in_range [OF m] bs_def pf_def fr_def idm_def t_def .
  obtain mg where mr: "mergeRecord bs pf = Inr mg"
    and st': "st' = \<lparr> finalResult = fr[m := mg],
                 idToIndexMap = reindex_id idm (read_prop t ''id'') (read_prop mg ''id'') m,
                 urlToIndexMap = reindex_url (urlToIndexMap st) (read_prop t ''homepageUrl'')
                     (read_prop mg ''homepageUrl'') m \<rparr>"
    using u' by (cases "mergeRecord bs pf") auto
  have obj: "is_obj mg" using mr by (rule mergeRecord_fields)
  have mid: "read_prop mg ''id'' = or_js (read_prop pf ''id'') (read_prop bs ''id'')"
    using mergeRecord_fields(2) [OF mr] merged_id by simp
  define cid where "cid = read_prop c ''id''"
  define oid where "oid = read_prop t ''id''"
  have cond: "read_prop mg ''id'' = oid \<or> \<not> keyable (read_prop mg ''id'') \<or> idm (read_prop mg ''id'') = None"
  proof (cases "truthy cid \<and> map_get idm cid \<noteq> None")
    case True
    then have "map_get idm cid = Some m"
      using look by (auto simp: lookup_slot_def Let_def cid_def idm_def)
    then have "idm cid = Some m" by (simp add: map_get_def split: if_splits)
    then have "oid = cid" using ok id_index_ok_entry [of fr idm cid m]
      by (simp add: oid_def t_def fr_def idm_def)
    then have "read_prop mg ''id'' = oid"
      unfolding mid using True by (simp add: or_js_def pf_def bs_def cid_def [symmetric] oid_def [symmetric])
    then show ?thesis by simp
  next
    case False
    then have c: "keyable cid \<Longrightarrow> idm cid = None"
      by (auto simp: keyable_def map_get_def)
    have "read_prop mg ''id'' = oid \<or> read_prop mg ''id'' = cid"
      unfolding mid by (simp add: or_js_def pf_def bs_def cid_def [symmetric] oid_def [symmetric])
    then show ?thesis using c by auto
  qed
  have "id_index_ok (fr[m := mg]) (reindex_id idm (read_prop (fr ! m) ''id'') (read_prop mg ''id'') m)"
    using ok m cond by (intro id_index_ok_reindex) (simp_all add: fr_def idm_def oid_def t_def)
  moreover have "list_all truthy (fr[m := mg])"
    using tr obj is_obj_truthy [of mg] unfolding fr_def list_all_iff
    by (auto dest: set_update_subset_insert [THEN subsetD])
  ultimately show ?thesis by (simp add: st' t_def)
qed

lemma push_keeps_index:
  assumes ok: "id_index_ok (finalResult st) (idToIndexMap st)"
    and tr: "list_all truthy (finalResult st)"
    and c: "truthy c"
    and nomatch: "truthy (read_prop c ''id'') \<Longrightarrow> map_get (idToIndexMap st) (read_prop c ''id'') = None"
  shows "id_index_ok (finalResult (push_new c st)) (idToIndexMap (push_new c st))
         \<and> list_all truthy (finalResult (push_new c st))"
proof -
  have fr: "finalResult (push_new c st) = finalResult st @ [c]"
    by (simp add: push_new_def Let_def)
  have idm: "idToIndexMap (push_new c st)
      = (if truthy (read_prop c ''id'')
         then map_set (idToIndexMap st) (read_prop c ''id'') (length (finalResult st))
         else idToIndexMap st)"
    by (simp add: push_new_def Let_def)
  have "id_index_ok (finalResult (push_new c st)) (idToIndexMap (push_new c st))"
    unfolding fr idm using ok nomatch by (rule id_index_ok_push)
  moreover have "list_all truthy (finalResult (push_new c st))"
    unfolding fr using tr c by simp
  ultimately show ?thesis ..
qed

lemma lookup_slot_unfold:
  "lookup_slot c st =
     (case (if truthy (read_prop c ''id'') then map_get (idToIndexMap st) (read_prop c ''id'') else None) of
        Some i \<Rightarrow> Some i
      | None \<Rightarrow> (if nonempty_url (read_prop c ''homepageUrl'')
                 then map_get (urlToIndexMap st) (read_prop c ''homepageUrl'') else None))"
  unfolding lookup_slot_def Let_def by (rule refl)

lemma lookup_slot_id_None:
  assumes "lookup_slot c st = None" and "truthy (read_prop c ''id'')"
  shows "map_get (idToIndexMap st) (read_prop c ''id'') = None"
proof (cases "map_get (idToIndexMap st) (read_prop c ''id'')")
  case None
  then show ?thesis .
next
  case (Some i)
  then have "lookup_slot c st = Some i" using assms(2) by (simp add: lookup_slot_unfold)
  then show ?thesis using assms(1) by simp
qed

lemma lookup_slot_by_id:
  assumes "lookup_slot c st = Some m" and "truthy (read_prop c ''id'')"
    and "map_get (idToIndexMap st) (read_prop c ''id'') \<noteq> None"
  shows "idToIndexMap st (read_prop c ''id'') = Some m"
proof -
  obtain i where i: "map_get (idToIndexMap st) (read_prop c ''id'') = Some i"
    using assms(3) by auto
  then have "lookup_slot c st = Some i" using assms(2) by (simp add: lookup_slot_unfold)
  then have "i = m" using assms(1) by simp
  then show ?thesis using i by (simp add: map_get_def split: if_splits)
qed

lemma merge_step_keeps_index:
  assumes ok: "id_index_ok (finalResult st) (idToIndexMap st)"
    and tr: "list_all truthy (finalResult st)"
    and rec: "is_record x"
    and step: "merge_step fromB x st = Inr st'"
  shows "id_index_ok (finalResult st') (idToIndexMap st') \<and> list_all truthy (finalResult st')"
proof -
  define c where "c = clone_val x"
  have ct: "truthy c" unfolding c_def using rec by (intro is_record_truthy is_record_clone_val)
  have step': "(case lookup_slot c st of
        Some m \<Rightarrow> if truthy (nth_js (finalResult st) m) then unify fromB c m st
                  else Inr (push_new c st)
      | None \<Rightarrow> Inr (push_new c st)) = Inr st'"
    using step unfolding merge_step_def Let_def c_def .
  show ?thesis
  proof (cases "lookup_slot c st")
    case None
    have "st' = push_new c st" using step' unfolding None by simp
    moreover have "truthy (read_prop c ''id'') \<Longrightarrow> map_get (idToIndexMap st) (read_prop c ''id'') = None"
      by (rule lookup_slot_id_None [OF None])
    ultimately show ?thesis
      using push_keeps_index [OF ok tr ct] by blast
  next
    case (Some m)
    show ?thesis
    proof (cases "truthy (nth_js (finalResult st) m)")
      case True
      have m: "m < length (finalResult st)"
      proof (rule ccontr)
        assume "\<not> m < length (finalResult st)"
        then have "nth_js (finalResult st) m = JUndefined" by (simp add: nth_js_def)
        then show False using True by simp
      qed
      have "unify fromB c m st = Inr st'"
        using step' True unfolding Some by simp
      then show ?thesis by (rule unify_keeps_index [OF ok tr Some m])
    next
      case False
      have st': "st' = push_new c st" using step' False unfolding Some by simp
      have "map_get (idToIndexMap st) (read_prop c ''id'') = None" if t: "truthy (read_prop c ''id'')"
      proof (rule ccontr)
        assume "map_get (idToIndexMap st) (read_prop c ''id'') \<noteq> None"
        then have "idToIndexMap st (read_prop c ''id'') = Some m"
          by (rule lookup_slot_by_id [OF Some t])
        then have "m < length (finalResult st)"
          using id_index_ok_entry [OF ok] by blast
        then have "truthy (nth_js (finalResult st) m)"
          using tr by (simp add: nth_js_def list_all_length)
        then show False using False by simp
      qed
      then show ?thesis using push_keeps_index [OF ok tr ct] st' by blast
    qed
  qed
qed

lemma merge_all_keeps_index:
  "id_index_ok (finalResult st) (idToIndexMap st) \<Longrightarrow> list_all truthy (finalResult st)
   \<Longrightarrow> list_all is_record xs \<Longrightarrow> merge_all fromB xs st = Inr st'
   \<Longrightarrow> id_index_ok (finalResult st') (idToIndexMap st') \<and> list_all truthy (finalResult st')"
proof (induction xs arbitrary: st)
  case Nil
  then show ?case by simp
next
  case (Cons x xs)
  from Cons.prems(4) obtain s1 where s1: "merge_step fromB x st = Inr s1"
    and rest: "merge_all fromB xs s1 = Inr st'"
    by (cases "merge_step fromB x st") auto
  have x: "is_record x" and xs: "list_all is_record xs" using Cons.prems(3) by simp_all
  have "id_index_ok (finalResult s1) (idToIndexMap s1) \<and> list_all truthy (finalResult s1)"
    by (rule merge_step_keeps_index [OF Cons.prems(1,2) x s1])
  then show ?case using Cons.IH [of s1] xs rest by blast
qed

lemma is_record_filter_records: "list_all is_record (filter_records l)"
  by (cases l) (simp_all add: list_all_iff)

lemma distinct_filter_map:
  "(\<And>i j. i < length xs \<Longrightarrow> j < length xs \<Longrightarrow> P (f (xs ! i)) \<Longrightarrow> f (xs ! i) = f (xs ! j) \<Longrightarrow> i = j)
   \<Longrightarrow> distinct (filter P (map f xs))"
proof (induction xs)
  case Nil
  then show ?case by simp
next
  case (Cons x xs)
  have ih: "distinct (filter P (map f xs))"
  proof (rule Cons.IH)
    fix i j assume "i < length xs" "j < length xs" "P (f (xs ! i))" "f (xs ! i) = f (xs ! j)"
    then have "Suc i = Suc j" using Cons.prems [of "Suc i" "Suc j"] by simp
    then show "i = j" by simp
  qed
  have "f x \<notin> set (map f xs)" if px: "P (f x)"
  proof
    assume "f x \<in> set (map f xs)"
    then obtain j where j: "j < length xs" "f (xs ! j) = f x"
      by (auto simp: in_set_conv_nth)
    have "0 = Suc j" using j px Cons.prems [of 0 "Suc j"] by simp
    then show False by simp
  qed
  then show ?case using ih by auto
qed

lemma id_index_ok_distinct:
  assumes ok: "id_index_ok fr idm"
  shows "distinct (record_ids fr)"
  unfolding record_ids_def
proof (rule distinct_filter_map)
  fix i j
  assume i: "i < length fr" and j: "j < length fr" and k: "keyable (read_prop (fr ! i) ''id'')"
    and e: "read_prop (fr ! i) ''id'' = read_prop (fr ! j) ''id''"
  have a: "idm (read_prop (fr ! i) ''id'') = Some i" using ok i k by (rule id_index_ok_slot)
  have kj: "keyable (read_prop (fr ! j) ''id'')" using k e by simp
  have b: "idm (read_prop (fr ! j) ''id'') = Some j" using ok j kj by (rule id_index_ok_slot)
  have "Some i = Some j" unfolding a [symmetric] b [symmetric] e ..
  then show "i = j" by (rule option.inject [THEN iffD1])
qed

lemma is_json_not_undefined: "is_json v \<Longrightarrow> v \<noteq> JUndefined"
  by (cases v) simp_all

lemma clone_val_json: "is_json v \<Longrightarrow> clone_val v = v"
proof (induction v rule: clone_val.induct)
  case (1 xs)
  have "map (\<lambda>v. if v = JUndefined then JNull else clone_val v) xs = xs"
  proof (rule map_idI)
    fix x assume x: "x \<in> set xs"
    have j: "is_json x" using 1(2) x by (simp add: list_all_iff)
    have n: "x \<noteq> JUndefined" using j by (rule is_json_not_undefined)
    have "clone_val x = x" using x n j by (rule 1(1))
    then show "(if x = JUndefined then JNull else clone_val x) = x" using n by simp
  qed
  then show ?case by simp
next
  case (2 ps)
  have all: "is_json v" if "(k, v) \<in> set ps" for k v
    using 2(2) that by (auto simp: list_all_iff)
  have f: "filter (\<lambda>(k, v). v \<noteq> JUndefined) ps = ps"
  proof (rule filter_True, rule ballI)
    fix x assume x: "x \<in> set ps"
    obtain k v where kv: "x = (k, v)" by (cases x)
    have "v \<noteq> JUndefined" using all [of k v] x kv is_json_not_undefined by blast
    then show "case x of (k, v) \<Rightarrow> v \<noteq> JUndefined" unfolding kv by simp
  qed
  have "map (\<lambda>(k, v). (k, clone_val v)) ps = ps"
  proof (rule map_idI)
    fix x assume x: "x \<in> set ps"
    obtain k v where kv: "x = (k, v)" by (cases x)
    have x': "x \<in> set (filter (\<lambda>(k, v). v \<noteq> JUndefined) ps)" unfolding f by (rule x)
    have j: "is_json v" using all [of k v] x kv by blast
    have "clone_val v = v" using x' kv [symmetric] j by (rule 2(1))
    then show "(case x of (k, v) \<Rightarrow> (k, clone_val v)) = x" unfolding kv by simp
  qed
  then show ?case unfolding clone_val.simps f by simp
qed simp_all

section \<open>Uniqueness of the keys in a reconciled list\<close>

text \<open>
  Claim C1, as far as the code goes: whatever the two arguments are, no two records of the
  list that \<open>mergeExtensionLists\<close> returns carry the same usable id. (The claim also
  promises that records without a common id never share a non-empty homepage URL; that
  part fails, see the example after the next.)
\<close>

theorem merged_ids_distinct:
  assumes "mergeExtensionLists listA listB = Inr res"
  shows "distinct (record_ids res)"
proof -
  obtain s1 s2 where s1: "merge_all False (filter_records listA) initial_state = Inr s1"
    and s2: "merge_all True (filter_records listB) s1 = Inr s2"
    and res: "res = finalResult s2"
    using assms unfolding mergeExtensionLists_def Let_def
    by (cases "merge_all False (filter_records listA) initial_state";
        cases "merge_all True (filter_records listB) (projr (merge_all False (filter_records listA) initial_state))")
       auto
  have i0: "id_index_ok (finalResult initial_state) (idToIndexMap initial_state)"
    by (simp add: initial_state_def id_index_ok_def)
  have t0: "list_all truthy (finalResult initial_state)" by (simp add: initial_state_def)
  have 1: "id_index_ok (finalResult s1) (idToIndexMap s1) \<and> list_all truthy (finalResult s1)"
    by (rule merge_all_keeps_index [OF i0 t0 is_record_filter_records s1])
  have 2: "id_index_ok (finalResult s2) (idToIndexMap s2) \<and> list_all truthy (finalResult s2)"
    using 1 by (intro merge_all_keeps_index [OF _ _ is_record_filter_records s2]) simp_all
  then show ?thesis unfolding res using id_index_ok_distinct by blast
qed

text \<open>
  An instance: two stored records with the same homepage URL collapse into one slot, the
  incoming record joins it by id, and the one id left is distinct.
\<close>

theorem merged_ids_distinct_witness:
  "mergeExtensionLists
      (JArr [JObj [(''id'', JStr ''a''), (''homepageUrl'', JStr ''u1'')],
             JObj [(''id'', JStr ''b''), (''homepageUrl'', JStr ''u1'')]])
      (JArr [JObj [(''id'', JStr ''a''), (''name'', JStr ''A'')]])
    = Inr [JObj [(''id'', JStr ''a''), (''homepageUrl'', JStr ''u1''), (''name'', JStr ''A''),
                 (''updateUrl'', JUndefined)]]
   \<and> distinct (record_ids
        [JObj [(''id'', JStr ''a''), (''homepageUrl'', JStr ''u1''), (''name'', JStr ''A''),
               (''updateUrl'', JUndefined)]])"
proof -
  have h: "mergeExtensionLists
      (JArr [JObj [(''id'', JStr ''a''), (''homepageUrl'', JStr ''u1'')],
             JObj [(''id'', JStr ''b''), (''homepageUrl'', JStr ''u1'')]])
      (JArr [JObj [(''id'', JStr ''a''), (''name'', JStr ''A'')]])
    = Inr [JObj [(''id'', JStr ''a''), (''homepageUrl'', JStr ''u1''), (''name'', JStr ''A''),
                 (''updateUrl'', JUndefined)]]"
    by (simp add: ext_defs)
  show ?thesis using h merged_ids_distinct [OF h] by simp
qed

text \<open>
  Claim C1 as stated fails. The incoming record matches the first slot by id and carries
  the homepage URL of the second: it is merged into the first slot only, and the result
  holds two records with different ids and the same homepage URL \<open>u2\<close>.
\<close>

theorem shared_homepageUrl_counterexample:
  "mergeExtensionLists
      (JArr [JObj [(''id'', JStr ''a''), (''homepageUrl'', JStr ''u1'')],
             JObj [(''id'', JStr ''b''), (''homepageUrl'', JStr ''u2'')]])
      (JArr [JObj [(''id'', JStr ''a''), (''homepageUrl'', JStr ''u2'')]])
    = Inr [JObj [(''id'', JStr ''a''), (''homepageUrl'', JStr ''u2''), (''name'', JUndefined),
                 (''updateUrl'', JUndefined)],
           JObj [(''id'', JStr ''b''), (''homepageUrl'', JStr ''u2'')]]
   \<and> \<not> distinct (record_urls
        [JObj [(''id'', JStr ''a''), (''homepageUrl'', JStr ''u2''), (''name'', JUndefined),
               (''updateUrl'', JUndefined)],
         JObj [(''id'', JStr ''b''), (''homepageUrl'', JStr ''u2'')]])"
  by (simp add: ext_defs record_urls_def keyable_def)

section \<open>Field precedence in a unified slot\<close>


lemma bind_r_Inr [simp]: "bind_r m Inr = m"
  by (cases m) simp_all

lemma merge_all_Nil [simp]: "merge_all fromB [] = Inr"
  by (rule ext) simp





section \<open>One step of the tree merge\<close>

lemma bind_r_Inr_iff: "(bind_r m f = Inr r) = (\<exists>v. m = Inr v \<and> f v = Inr r)"
  by (cases m) simp_all

lemma get_prop_Inr: "get_prop v k = Inr c \<Longrightarrow> c = read_prop v k \<and> v \<noteq> JNull \<and> v \<noteq> JUndefined"
  by (cases v) auto

lemma as_array_Inr: "as_array v = Inr ts \<Longrightarrow> v = JArr ts"
  by (cases v) auto

lemma jsonClone_Inr: "jsonClone v = Inr c \<Longrightarrow> c = clone_val v \<and> v \<noteq> JUndefined"
  by (auto simp: jsonClone_def split: if_splits)

lemma truthy_children_obj: "truthy (read_prop v k) \<Longrightarrow> is_obj v"
  by (cases v) simp_all

lemma get_prop_obj: "is_obj v \<Longrightarrow> get_prop v k = Inr (read_prop v k)"
  by (cases v) simp_all

lemma mergeNodes_Cons_cases [consumes 1, case_names push_folder replace recurse duplicate push_leaf]:
  assumes m: "mergeNodes target (src # rest) = Inr res"
  obtains
    (push_folder) c ts where
      "src \<noteq> JUndefined" "c = clone_val src" "non_null c" "truthy (read_prop c ''children'')" "target = JArr ts"
      "find_folder ts (read_prop c ''title'') = Inr None"
      "mergeNodes (JArr (ts @ [c])) rest = Inr res"
  | (replace) c ts i where
      "src \<noteq> JUndefined" "c = clone_val src" "non_null c" "truthy (read_prop c ''children'')" "target = JArr ts"
      "find_folder ts (read_prop c ''title'') = Inr (Some i)"
      "read_prop c ''title'' = JStr ''Bookmarks Bar''"
      "mergeNodes (JArr (ts[i := set_prop (ts ! i) ''children'' (read_prop c ''children'')])) rest
         = Inr res"
  | (recurse) c ts i items mc where
      "src \<noteq> JUndefined" "c = clone_val src" "non_null c" "truthy (read_prop c ''children'')" "target = JArr ts"
      "find_folder ts (read_prop c ''title'') = Inr (Some i)"
      "read_prop c ''title'' \<noteq> JStr ''Bookmarks Bar''"
      "iter_items (read_prop c ''children'') = Inr items"
      "mergeNodes (read_prop (set_prop (ts ! i) ''title'' (read_prop c ''title'')) ''children'') items
         = Inr mc"
      "mergeNodes (JArr (ts[i := set_prop (set_prop (ts ! i) ''title'' (read_prop c ''title''))
                                   ''children'' mc])) rest = Inr res"
  | (duplicate) c ts where
      "src \<noteq> JUndefined" "c = clone_val src" "non_null c" "\<not> truthy (read_prop c ''children'')" "target = JArr ts"
      "isDuplicateBookmark ts c = Inr True"
      "mergeNodes target rest = Inr res"
  | (push_leaf) c ts where
      "src \<noteq> JUndefined" "c = clone_val src" "non_null c" "\<not> truthy (read_prop c ''children'')" "target = JArr ts"
      "isDuplicateBookmark ts c = Inr False"
      "mergeNodes (JArr (ts @ [c])) rest = Inr res"
proof -
  from m obtain c where c: "jsonClone src = Inr c"
    and m1: "bind_r (get_prop c ''children'') (\<lambda>srcChildren.
       if truthy srcChildren then
         bind_r (as_array target) (\<lambda>ts.
         bind_r (get_prop c ''title'') (\<lambda>srcTitle.
         bind_r (find_folder ts srcTitle) (\<lambda>found.
           case found of
             Some i \<Rightarrow>
               if strict_eq srcTitle (JStr ''Bookmarks Bar'') then
                 mergeNodes (JArr (ts[i := set_prop (ts ! i) ''children'' srcChildren])) rest
               else
                 let existing = set_prop (ts ! i) ''title'' srcTitle in
                 bind_r (get_prop existing ''children'') (\<lambda>existingChildren.
                 bind_r (iter_items srcChildren) (\<lambda>srcItems.
                 bind_r (mergeNodes existingChildren srcItems) (\<lambda>mergedChildren.
                   mergeNodes (JArr (ts[i := set_prop existing ''children'' mergedChildren])) rest)))
           | None \<Rightarrow> mergeNodes (JArr (ts @ [c])) rest)))
       else
         bind_r (as_array target) (\<lambda>ts.
         bind_r (isDuplicateBookmark ts c) (\<lambda>dup.
           if dup then mergeNodes target rest
           else mergeNodes (JArr (ts @ [c])) rest))) = Inr res"
    unfolding mergeNodes.simps bind_r_Inr_iff [of "jsonClone src"] by blast
  have cv0: "src \<noteq> JUndefined" "c = clone_val src" using jsonClone_Inr [OF c] by simp_all
  from m1 obtain ch where ch: "get_prop c ''children'' = Inr ch" and m2: "(if truthy ch then
         bind_r (as_array target) (\<lambda>ts.
         bind_r (get_prop c ''title'') (\<lambda>srcTitle.
         bind_r (find_folder ts srcTitle) (\<lambda>found.
           case found of
             Some i \<Rightarrow>
               if strict_eq srcTitle (JStr ''Bookmarks Bar'') then
                 mergeNodes (JArr (ts[i := set_prop (ts ! i) ''children'' ch])) rest
               else
                 let existing = set_prop (ts ! i) ''title'' srcTitle in
                 bind_r (get_prop existing ''children'') (\<lambda>existingChildren.
                 bind_r (iter_items ch) (\<lambda>srcItems.
                 bind_r (mergeNodes existingChildren srcItems) (\<lambda>mergedChildren.
                   mergeNodes (JArr (ts[i := set_prop existing ''children'' mergedChildren])) rest)))
           | None \<Rightarrow> mergeNodes (JArr (ts @ [c])) rest)))
       else
         bind_r (as_array target) (\<lambda>ts.
         bind_r (isDuplicateBookmark ts c) (\<lambda>dup.
           if dup then mergeNodes target rest
           else mergeNodes (JArr (ts @ [c])) rest))) = Inr res"
    unfolding bind_r_Inr_iff [of "get_prop c ''children''"] by blast
  have chv: "ch = read_prop c ''children''" using get_prop_Inr [OF ch] by simp
  have "non_null c" using get_prop_Inr [OF ch] by (simp add: non_null_def)
  note cv = cv0 this
  show thesis
  proof (cases "truthy ch")
    case False
    with m2 obtain ts dup where ts: "as_array target = Inr ts"
      and d: "isDuplicateBookmark ts c = Inr dup"
      and m3: "(if dup then mergeNodes target rest else mergeNodes (JArr (ts @ [c])) rest) = Inr res"
      by (auto simp: bind_r_Inr_iff)
    have t: "target = JArr ts" using ts by (rule as_array_Inr)
    show ?thesis
    proof (cases dup)
      case True
      then show ?thesis using duplicate [OF cv _ t] False chv d m3 by simp
    next
      case nd: False
      then show ?thesis using push_leaf [OF cv _ t] False chv d m3 by simp
    qed
  next
    case True
    then have cobj: "is_obj c" unfolding chv by (rule truthy_children_obj)
    have gt: "get_prop c ''title'' = Inr (read_prop c ''title'')" using cobj by (rule get_prop_obj)
    from m2 True obtain ts found where ts: "as_array target = Inr ts"
      and f: "find_folder ts (read_prop c ''title'') = Inr found"
      and m3: "(case found of
             Some i \<Rightarrow>
               if strict_eq (read_prop c ''title'') (JStr ''Bookmarks Bar'') then
                 mergeNodes (JArr (ts[i := set_prop (ts ! i) ''children'' ch])) rest
               else
                 let existing = set_prop (ts ! i) ''title'' (read_prop c ''title'') in
                 bind_r (get_prop existing ''children'') (\<lambda>existingChildren.
                 bind_r (iter_items ch) (\<lambda>srcItems.
                 bind_r (mergeNodes existingChildren srcItems) (\<lambda>mergedChildren.
                   mergeNodes (JArr (ts[i := set_prop existing ''children'' mergedChildren])) rest)))
           | None \<Rightarrow> mergeNodes (JArr (ts @ [c])) rest) = Inr res"
      by (auto simp: bind_r_Inr_iff gt)
    have t: "target = JArr ts" using ts by (rule as_array_Inr)
    show ?thesis
    proof (cases found)
      case None
      then show ?thesis using push_folder [OF cv _ t] True chv f m3 by simp
    next
      case (Some i)
      show ?thesis
      proof (cases "read_prop c ''title'' = JStr ''Bookmarks Bar''")
        case bb: True
        then show ?thesis using replace [OF cv _ t, of i] True chv f m3 Some
          by (simp add: strict_eq_def)
      next
        case nb: False
        then have ns: "\<not> strict_eq (read_prop c ''title'') (JStr ''Bookmarks Bar'')"
          by (simp add: strict_eq_def)
        define ex where "ex = set_prop (ts ! i) ''title'' (read_prop c ''title'')"
        from m3 Some ns obtain ech items mc where
          e: "get_prop ex ''children'' = Inr ech" and it: "iter_items ch = Inr items"
          and mc: "mergeNodes ech items = Inr mc"
          and m4: "mergeNodes (JArr (ts[i := set_prop ex ''children'' mc])) rest = Inr res"
          by (auto simp: bind_r_Inr_iff Let_def ex_def)
        have "ech = read_prop ex ''children''" using get_prop_Inr [OF e] by simp
        then show ?thesis
          using recurse [OF cv _ t, of i items mc] True chv f Some nb it mc m4
          by (simp add: ex_def)
      qed
    qed
  qed
qed

lemma first_index_Some:
  "first_index P xs = Some i \<Longrightarrow> i < length xs \<and> P (xs ! i) \<and> (\<forall>j<i. \<not> P (xs ! j))"
proof (induction xs arbitrary: i)
  case Nil
  then show ?case by simp
next
  case (Cons x xs)
  show ?case
  proof (cases "P x")
    case True
    then show ?thesis using Cons.prems by simp
  next
    case False
    then obtain k where k: "first_index P xs = Some k" and i: "i = Suc k"
      using Cons.prems by auto
    have ih: "k < length xs \<and> P (xs ! k) \<and> (\<forall>j<k. \<not> P (xs ! j))" using k by (rule Cons.IH)
    have "\<not> P ((x # xs) ! j)" if "j < Suc k" for j
      using that False ih by (cases j) simp_all
    then show ?thesis using ih i by simp
  qed
qed

lemma first_index_None: "first_index P xs = None \<Longrightarrow> x \<in> set xs \<Longrightarrow> \<not> P x"
  by (induction xs) (auto split: if_splits)

lemma find_folder_Inr:
  "find_folder ts t = Inr r \<Longrightarrow> r = first_index (folder_titled t) ts"
proof (induction ts arbitrary: r)
  case Nil
  then show ?case by simp
next
  case (Cons x ts)
  from Cons.prems have nn: "get_prop x ''children'' = Inr (read_prop x ''children'')"
    by (cases x) (simp_all)
  show ?case
  proof (cases "folder_titled t x")
    case True
    then have "is_obj x" by (auto simp: folder_titled_def intro: truthy_children_obj)
    then show ?thesis using True Cons.prems by (simp add: folder_titled_def get_prop_obj)
  next
    case False
    have "shift_index (find_folder ts t) = Inr r"
    proof (cases "truthy (read_prop x ''children'')")
      case True
      then have o: "is_obj x" by (rule truthy_children_obj)
      have "\<not> strict_eq (read_prop x ''title'') t" using False True by (simp add: folder_titled_def)
      then show ?thesis using Cons.prems True by (simp add: get_prop_obj [OF o])
    next
      case nt: False
      then show ?thesis using Cons.prems nn by simp
    qed
    then obtain r' where r': "find_folder ts t = Inr r'" and r: "r = map_option Suc r'"
      by (auto simp: shift_index_def bind_r_Inr_iff)
    have "r' = first_index (folder_titled t) ts" using r' by (rule Cons.IH)
    then show ?thesis using r False by simp
  qed
qed

lemma find_folder_total:
  "list_all non_null ts \<Longrightarrow> find_folder ts t = Inr (first_index (folder_titled t) ts)"
proof (induction ts)
  case Nil
  then show ?case by simp
next
  case (Cons x ts)
  have g: "get_prop x k = Inr (read_prop x k)" for k
    using Cons.prems by (cases x) (simp_all add: non_null_def)
  have ih: "find_folder ts t = Inr (first_index (folder_titled t) ts)"
    using Cons by simp
  have ft: "folder_titled t x
      = (truthy (read_prop x ''children'') \<and> strict_eq (read_prop x ''title'') t)"
    by (simp add: folder_titled_def)
  show ?case by (simp add: g ih ft shift_index_def)
qed

lemma isDuplicateBookmark_Inr:
  "isDuplicateBookmark ts n = Inr b \<Longrightarrow> b = list_ex (\<lambda>t. same_bookmark t n) ts"
proof (induction ts)
  case Nil
  then show ?case by simp
next
  case (Cons x ts)
  from Cons.prems have gx: "get_prop x k = Inr (read_prop x k)" for k
    by (cases x) simp_all
  show ?case
  proof (cases "truthy (read_prop x ''url'')")
    case False
    then have "isDuplicateBookmark ts n = Inr b" using Cons.prems by (simp add: gx)
    then show ?thesis using Cons.IH False by (simp add: same_bookmark_def)
  next
    case True
    then have "\<exists>v. get_prop n ''url'' = Inr v" using Cons.prems
      by (auto simp: gx bind_r_Inr_iff)
    then have gn: "get_prop n k = Inr (read_prop n k)" for k by (cases n) simp_all
    show ?thesis
    proof (cases "same_bookmark x n")
      case sb: True
      then show ?thesis using Cons.prems True by (simp add: gx gn same_bookmark_def)
    next
      case nsb: False
      then have "isDuplicateBookmark ts n = Inr b" using Cons.prems True
        by (simp add: gx gn same_bookmark_def split: if_splits)
      then show ?thesis using Cons.IH nsb by simp
    qed
  qed
qed

lemma isDuplicateBookmark_total:
  "list_all non_null ts \<Longrightarrow> non_null n
   \<Longrightarrow> isDuplicateBookmark ts n = Inr (list_ex (\<lambda>t. same_bookmark t n) ts)"
proof (induction ts)
  case Nil
  then show ?case by simp
next
  case (Cons x ts)
  have gx: "get_prop x k = Inr (read_prop x k)" for k
    using Cons.prems by (cases x) (simp_all add: non_null_def)
  have gn: "get_prop n k = Inr (read_prop n k)" for k
    using Cons.prems by (cases n) (simp_all add: non_null_def)
  have ih: "isDuplicateBookmark ts n = Inr (list_ex (\<lambda>t. same_bookmark t n) ts)"
    using Cons by simp
  have sb: "same_bookmark x n
      = (truthy (read_prop x ''url'') \<and> truthy (read_prop n ''url'')
         \<and> strict_eq (read_prop x ''url'') (read_prop n ''url'')
         \<and> strict_eq (read_prop x ''title'') (read_prop n ''title''))"
    by (simp add: same_bookmark_def)
  show ?case by (simp add: gx gn ih sb)
qed

lemma non_null_get_prop: "non_null v \<Longrightarrow> get_prop v k = Inr (read_prop v k)"
  by (cases v) (simp_all add: non_null_def)

lemma is_obj_non_null: "is_obj v \<Longrightarrow> non_null v"
  by (cases v) (simp_all add: non_null_def)

lemma read_set_prop_other:
  "k' \<noteq> k \<Longrightarrow> read_prop (set_prop m k v) k' = read_prop m k'"
  by (cases m) (simp_all add: update_conv')

lemma mergeNodes_step:
  assumes c: "jsonClone src = Inr c" and nc: "non_null c" and ts: "list_all non_null ts"
  shows "mergeNodes (JArr ts) (src # rest) =
    (if truthy (read_prop c ''children'') then
       (case first_index (folder_titled (read_prop c ''title'')) ts of
          Some i \<Rightarrow>
            if read_prop c ''title'' = JStr ''Bookmarks Bar''
            then mergeNodes (JArr (ts[i := set_prop (ts ! i) ''children'' (read_prop c ''children'')])) rest
            else bind_r (iter_items (read_prop c ''children'')) (\<lambda>items.
                 bind_r (mergeNodes (read_prop (ts ! i) ''children'') items) (\<lambda>mc.
                   mergeNodes (JArr (ts[i := set_prop (set_prop (ts ! i) ''title'' (read_prop c ''title''))
                                               ''children'' mc])) rest))
        | None \<Rightarrow> mergeNodes (JArr (ts @ [c])) rest)
     else if list_ex (\<lambda>t. same_bookmark t c) ts then mergeNodes (JArr ts) rest
          else mergeNodes (JArr (ts @ [c])) rest)"
proof (cases "truthy (read_prop c ''children'')")
  case False
  then show ?thesis
    by (simp add: c non_null_get_prop [OF nc] isDuplicateBookmark_total [OF ts nc])
next
  case True
  show ?thesis
  proof (cases "first_index (folder_titled (read_prop c ''title'')) ts")
    case None
    then show ?thesis using True
      by (simp add: c non_null_get_prop [OF nc] find_folder_total [OF ts])
  next
    case (Some i)
    have i: "i < length ts" and ft: "folder_titled (read_prop c ''title'') (ts ! i)"
      using first_index_Some [OF Some] by simp_all
    have o: "is_obj (ts ! i)" using ft by (auto simp: folder_titled_def intro: truthy_children_obj)
    have o': "is_obj (set_prop (ts ! i) ''title'' (read_prop c ''title''))" using o by simp
    have g: "get_prop (set_prop (ts ! i) ''title'' (read_prop c ''title'')) ''children''
        = Inr (read_prop (ts ! i) ''children'')"
      by (simp add: get_prop_obj [OF o'] read_set_prop_other)
    show ?thesis
    proof (cases "read_prop c ''title'' = JStr ''Bookmarks Bar''")
      case bb: True
      then show ?thesis using True Some
        by (simp add: c non_null_get_prop [OF nc] find_folder_total [OF ts] strict_eq_def)
    next
      case nb: False
      then have "\<not> strict_eq (read_prop c ''title'') (JStr ''Bookmarks Bar'')"
        by (simp add: strict_eq_def)
      then show ?thesis using True Some nb
        by (simp add: c non_null_get_prop [OF nc] find_folder_total [OF ts] g Let_def)
    qed
  qed
qed

lemma wf_node_obj: "wf_node n \<Longrightarrow> is_obj n \<and> is_json n"
  by (cases n) (simp_all del: is_json.simps read_prop.simps)

lemma wf_node_folder:
  assumes "wf_node n" and "truthy (read_prop n ''children'')"
  shows "is_prim (read_prop n ''title'')" and "read_prop n ''title'' \<noteq> JUndefined"
    and "read_prop n ''title'' = JStr ''Bookmarks Bar''
         \<or> (\<exists>cs. read_prop n ''children'' = JArr cs \<and> wf_forest cs)"
proof -
  obtain ps where n: "n = JObj ps" using assms(1) by (cases n) simp_all
  have w: "is_prim (read_prop n ''title'') \<and> read_prop n ''title'' \<noteq> JUndefined \<and>
         (read_prop n ''title'' = JStr ''Bookmarks Bar'' \<or>
          (case read_prop n ''children'' of
             JArr cs \<Rightarrow> list_all wf_node cs \<and> distinct (folder_titles cs)
           | _ \<Rightarrow> False))"
    using assms unfolding n by (simp del: is_json.simps read_prop.simps)
  show "is_prim (read_prop n ''title'')" and "read_prop n ''title'' \<noteq> JUndefined"
    using w by simp_all
  show "read_prop n ''title'' = JStr ''Bookmarks Bar''
         \<or> (\<exists>cs. read_prop n ''children'' = JArr cs \<and> wf_forest cs)"
    using w by (cases "read_prop n ''children''") (auto simp: wf_forest_def)
qed

lemma wf_node_leaf:
  assumes "wf_node n" and "\<not> truthy (read_prop n ''children'')"
  shows "truthy (read_prop n ''url'')" and "is_prim (read_prop n ''url'')"
    and "is_prim (read_prop n ''title'')"
proof -
  obtain ps where n: "n = JObj ps" using assms(1) by (cases n) simp_all
  have "truthy (read_prop n ''url'') \<and> is_prim (read_prop n ''url'')
            \<and> is_prim (read_prop n ''title'')"
    using assms unfolding n by (simp del: is_json.simps read_prop.simps)
  then show "truthy (read_prop n ''url'')" and "is_prim (read_prop n ''url'')"
    and "is_prim (read_prop n ''title'')" by simp_all
qed

lemma set_prop_same:
  assumes "read_prop n k = v" and "v \<noteq> JUndefined"
  shows "set_prop n k v = n"
proof (cases n)
  case (JObj ps)
  have "map_of ps k = Some v" using assms JObj by (auto split: option.splits)
  then show ?thesis using JObj by (simp add: update_triv)
qed simp_all

lemma folder_titles_Cons:
  "folder_titles (a # ns)
     = (if truthy (read_prop a ''children'') then read_prop a ''title'' # folder_titles ns
        else folder_titles ns)"
  by (simp add: folder_titles_def)

lemma folder_titles_mem:
  "x \<in> set ns \<Longrightarrow> truthy (read_prop x ''children'') \<Longrightarrow> read_prop x ''title'' \<in> set (folder_titles ns)"
  by (auto simp: folder_titles_def)

lemma first_index_self:
  assumes "x \<in> set ns" and "truthy (read_prop x ''children'')" and "is_prim (read_prop x ''title'')"
    and "distinct (folder_titles ns)"
  shows "\<exists>i. first_index (folder_titled (read_prop x ''title'')) ns = Some i \<and> i < length ns \<and> ns ! i = x"
  using assms(1,4)
proof (induction ns)
  case Nil
  then show ?case by simp
next
  case (Cons a ns)
  have fx: "folder_titled (read_prop x ''title'') x"
    using assms(2,3) by (simp add: folder_titled_def strict_eq_def)
  show ?case
  proof (cases "folder_titled (read_prop x ''title'') a")
    case True
    have "a = x"
    proof (rule ccontr)
      assume "a \<noteq> x"
      then have "x \<in> set ns" using Cons.prems(1) by simp
      then have "read_prop x ''title'' \<in> set (folder_titles ns)"
        using assms(2) by (rule folder_titles_mem)
      moreover have "read_prop a ''title'' = read_prop x ''title''" "truthy (read_prop a ''children'')"
        using True by (simp_all add: folder_titled_def strict_eq_def)
      ultimately show False using Cons.prems(2) by (simp add: folder_titles_Cons)
    qed
    then show ?thesis using True by simp
  next
    case False
    then have "a \<noteq> x" using fx by auto
    then have x: "x \<in> set ns" using Cons.prems(1) by simp
    have d: "distinct (folder_titles ns)"
      using Cons.prems(2) by (simp add: folder_titles_Cons split: if_splits)
    obtain i where "first_index (folder_titled (read_prop x ''title'')) ns = Some i"
      "i < length ns" "ns ! i = x"
      using Cons.IH [OF x d] by blast
    then show ?thesis using False by simp
  qed
qed

lemma wf_forest_non_null: "wf_forest ns \<Longrightarrow> list_all non_null ns"
  unfolding wf_forest_def list_all_iff using wf_node_obj is_obj_non_null by blast

lemma merge_self_nodes:
  "wf_forest ns \<Longrightarrow> set xs \<subseteq> set ns \<Longrightarrow> mergeNodes (JArr ns) xs = Inr (JArr ns)"
proof (induction "size_list size ns" arbitrary: ns xs rule: less_induct)
  case less
  have nn: "list_all non_null ns" using less.prems(1) by (rule wf_forest_non_null)
  have d: "distinct (folder_titles ns)" using less.prems(1) by (simp add: wf_forest_def)
  show ?case using less.prems(2)
  proof (induction xs)
    case Nil
    then show ?case by simp
  next
    case (Cons x xs)
    have x: "x \<in> set ns" and xs: "set xs \<subseteq> set ns" using Cons.prems by simp_all
    have ih: "mergeNodes (JArr ns) xs = Inr (JArr ns)" using xs by (rule Cons.IH)
    have w: "wf_node x" using less.prems(1) x by (simp add: wf_forest_def list_all_iff)
    have o: "is_obj x" and j: "is_json x" using wf_node_obj [OF w] by simp_all
    have c: "jsonClone x = Inr x"
      using j by (simp add: jsonClone_def clone_val_json is_json_not_undefined)
    have nx: "non_null x" using o by (rule is_obj_non_null)
    note step = mergeNodes_step [OF c nx nn, of xs]
    show ?case
    proof (cases "truthy (read_prop x ''children'')")
      case False
      have "same_bookmark x x"
        using wf_node_leaf [OF w False] by (simp add: same_bookmark_def strict_eq_def)
      then have "list_ex (\<lambda>t. same_bookmark t x) ns" using x by (auto simp: list_ex_iff)
      then show ?thesis unfolding step using False ih by simp
    next
      case True
      note f = wf_node_folder [OF w True]
      obtain i where i: "first_index (folder_titled (read_prop x ''title'')) ns = Some i"
        "i < length ns" "ns ! i = x"
        using first_index_self [OF x True f(1) d] by blast
      have ch: "read_prop x ''children'' \<noteq> JUndefined" using True by auto
      show ?thesis
      proof (cases "read_prop x ''title'' = JStr ''Bookmarks Bar''")
        case bb: True
        have "ns[i := set_prop (ns ! i) ''children'' (read_prop x ''children'')] = ns"
          unfolding i(3) set_prop_same [OF refl ch] using i(3) by (metis list_update_id)
        then show ?thesis unfolding step using True bb i(1) ih by simp
      next
        case nb: False
        then obtain cs where cs: "read_prop x ''children'' = JArr cs" and wcs: "wf_forest cs"
          using f(3) by blast
        have "size_list size cs < size x"
        proof -
          have "get_prop x ''children'' = Inr (JArr cs)" using o cs by (simp add: get_prop_obj)
          then have "size (JArr cs) < size x" by (rule size_get_prop) simp
          then show ?thesis by simp
        qed
        moreover have "size x \<le> size_list size ns" using x by (induction ns) auto
        ultimately have lt: "size_list size cs < size_list size ns" by simp
        have inner: "mergeNodes (JArr cs) cs = Inr (JArr cs)"
          using lt wcs by (rule less.hyps) simp
        have t1: "set_prop x ''title'' (read_prop x ''title'') = x"
          using f(2) by (intro set_prop_same) simp_all
        have t2: "set_prop x ''children'' (JArr cs) = x"
          using cs by (intro set_prop_same) simp_all
        have upd: "ns[i := x] = ns" using i(3) by (metis list_update_id)
        show ?thesis unfolding step
          using True nb i(1) ih by (simp add: i(3) cs inner t1 t2 upd)
      qed
    qed
  qed
qed

section \<open>Merging a forest with itself\<close>

text \<open>
  Claim C6, as amended: on a forest that is well formed in the sense of \<open>wf_forest\<close>,
  merging the forest with an identical copy returns the forest itself, the
  \<open>Bookmarks Bar\<close> folder included (its children are replaced by equal ones).
\<close>

theorem merge_self:
  assumes "wf_forest ns"
  shows "mergeBookmarkTrees (JArr ns) (JArr ns) = Inr (JArr ns)"
proof -
  have "list_all is_json ns"
    using assms wf_node_obj unfolding wf_forest_def list_all_iff by blast
  then have j: "is_json (JArr ns)" by simp
  have c: "jsonClone (JArr ns) = Inr (JArr ns)"
    unfolding jsonClone_def clone_val_json [OF j] by simp
  have "mergeNodes (JArr ns) ns = Inr (JArr ns)"
    using assms by (rule merge_self_nodes) simp
  then show ?thesis unfolding mergeBookmarkTrees_def Let_def by (simp add: c)
qed

text \<open>
  An instance: a folder with two leaves, a leaf beside it and a \<open>Bookmarks Bar\<close> folder.
\<close>

theorem merge_self_witness:
  "wf_forest
     [JObj [(''title'', JStr ''Work''),
            (''children'', JArr [JObj [(''title'', JStr ''A''), (''url'', JStr ''http://a'')],
                                 JObj [(''title'', JStr ''B''), (''url'', JStr ''http://b'')]])],
      JObj [(''title'', JStr ''C''), (''url'', JStr ''http://c'')],
      JObj [(''title'', JStr ''Bookmarks Bar''),
            (''children'', JArr [JObj [(''title'', JStr ''D''), (''url'', JStr ''http://d'')]])]]
   \<and> mergeBookmarkTrees
     (JArr [JObj [(''title'', JStr ''Work''),
            (''children'', JArr [JObj [(''title'', JStr ''A''), (''url'', JStr ''http://a'')],
                                 JObj [(''title'', JStr ''B''), (''url'', JStr ''http://b'')]])],
      JObj [(''title'', JStr ''C''), (''url'', JStr ''http://c'')],
      JObj [(''title'', JStr ''Bookmarks Bar''),
            (''children'', JArr [JObj [(''title'', JStr ''D''), (''url'', JStr ''http://d'')]])]])
     (JArr [JObj [(''title'', JStr ''Work''),
            (''children'', JArr [JObj [(''title'', JStr ''A''), (''url'', JStr ''http://a'')],
                                 JObj [(''title'', JStr ''B''), (''url'', JStr ''http://b'')]])],
      JObj [(''title'', JStr ''C''), (''url'', JStr ''http://c'')],
      JObj [(''title'', JStr ''Bookmarks Bar''),
            (''children'', JArr [JObj [(''title'', JStr ''D''), (''url'', JStr ''http://d'')]])]])
   = Inr (JArr [JObj [(''title'', JStr ''Work''),
            (''children'', JArr [JObj [(''title'', JStr ''A''), (''url'', JStr ''http://a'')],
                                 JObj [(''title'', JStr ''B''), (''url'', JStr ''http://b'')]])],
      JObj [(''title'', JStr ''C''), (''url'', JStr ''http://c'')],
      JObj [(''title'', JStr ''Bookmarks Bar''),
            (''children'', JArr [JObj [(''title'', JStr ''D''), (''url'', JStr ''http://d'')]])]])"
proof -
  have w: "wf_forest
     [JObj [(''title'', JStr ''Work''),
            (''children'', JArr [JObj [(''title'', JStr ''A''), (''url'', JStr ''http://a'')],
                                 JObj [(''title'', JStr ''B''), (''url'', JStr ''http://b'')]])],
      JObj [(''title'', JStr ''C''), (''url'', JStr ''http://c'')],
      JObj [(''title'', JStr ''Bookmarks Bar''),
            (''children'', JArr [JObj [(''title'', JStr ''D''), (''url'', JStr ''http://d'')]])]]"
    by (simp add: wf_forest_def folder_titles_def)
  show ?thesis using w merge_self [OF w] by simp
qed

text \<open>
  Claim C6 as stated fails on forests the browser can hold. Two sibling folders with the
  same title: the second copy is merged into the first folder, which gains the leaf of the
  second. A node with neither URL nor children: it is never taken for a duplicate and is
  appended again.
\<close>

theorem merge_self_counterexample:
  "mergeBookmarkTrees
     (JArr [JObj [(''title'', JStr ''X''),
                  (''children'', JArr [JObj [(''title'', JStr ''a''), (''url'', JStr ''http://a'')]])],
            JObj [(''title'', JStr ''X''),
                  (''children'', JArr [JObj [(''title'', JStr ''b''), (''url'', JStr ''http://b'')]])]])
     (JArr [JObj [(''title'', JStr ''X''),
                  (''children'', JArr [JObj [(''title'', JStr ''a''), (''url'', JStr ''http://a'')]])],
            JObj [(''title'', JStr ''X''),
                  (''children'', JArr [JObj [(''title'', JStr ''b''), (''url'', JStr ''http://b'')]])]])
   = Inr (JArr [JObj [(''title'', JStr ''X''),
                  (''children'', JArr [JObj [(''title'', JStr ''a''), (''url'', JStr ''http://a'')],
                                       JObj [(''title'', JStr ''b''), (''url'', JStr ''http://b'')]])],
            JObj [(''title'', JStr ''X''),
                  (''children'', JArr [JObj [(''title'', JStr ''b''), (''url'', JStr ''http://b'')]])]])
   \<and> mergeBookmarkTrees (JArr [JObj [(''title'', JStr ''x'')]]) (JArr [JObj [(''title'', JStr ''x'')]])
     = Inr (JArr [JObj [(''title'', JStr ''x'')], JObj [(''title'', JStr ''x'')]])"
  by (simp add: tree_defs)


section \<open>What the merge keeps of the base forest\<close>

lemma same_fields_iff:
  "list_all (\<lambda>k. k = x \<or> read_prop r k = read_prop n k) (own_keys n @ own_keys r)
   = (\<forall>k. k \<noteq> x \<longrightarrow> read_prop r k = read_prop n k)"
proof
  assume l: "list_all (\<lambda>k. k = x \<or> read_prop r k = read_prop n k) (own_keys n @ own_keys r)"
  show "\<forall>k. k \<noteq> x \<longrightarrow> read_prop r k = read_prop n k"
  proof (intro allI impI)
    fix k assume k: "k \<noteq> x"
    show "read_prop r k = read_prop n k"
    proof (cases "k \<in> set (own_keys n @ own_keys r)")
      case True
      then show ?thesis using l k by (auto simp: list_all_iff)
    next
      case False
      then have "read_prop n k = JUndefined" "read_prop r k = JUndefined"
        using read_prop_own_keys [of n k] read_prop_own_keys [of r k] by auto
      then show ?thesis by simp
    qed
  qed
next
  assume "\<forall>k. k \<noteq> x \<longrightarrow> read_prop r k = read_prop n k"
  then show "list_all (\<lambda>k. k = x \<or> read_prop r k = read_prop n k) (own_keys n @ own_keys r)"
    by (auto simp: list_all_iff)
qed

lemma kept_leaf: "\<not> truthy (read_prop n ''children'') \<Longrightarrow> kept S n r = (r = n)"
  by (cases n) (simp_all del: read_prop.simps)

lemma kept_folder:
  assumes "truthy (read_prop n ''children'')"
  shows "kept S n r =
     (is_obj r \<and> (\<forall>k. k \<noteq> ''children'' \<longrightarrow> read_prop r k = read_prop n k)
      \<and> (if read_prop n ''title'' = JStr ''Bookmarks Bar''
         then read_prop r ''children'' = read_prop n ''children'' \<or> read_prop r ''children'' \<in> set S
         else kept_children S (read_prop n ''children'') (read_prop r ''children'')))"
proof -
  obtain ps where n: "n = JObj ps" using assms by (cases n) simp_all
  have kc: "kept_children S (read_prop n ''children'') (read_prop r ''children'')
      = (case read_prop n ''children'' of
                   JArr cs \<Rightarrow>
                     (case read_prop r ''children'' of
                        JArr rs \<Rightarrow> length cs \<le> length rs
                                   \<and> list_all2 (kept S) cs (take (length cs) rs)
                      | _ \<Rightarrow> False)
                 | c \<Rightarrow> read_prop r ''children'' = c)"
    unfolding kept_children_def forest_kept_def
    by (cases "read_prop n ''children''") (simp_all split: jsval.splits)
  show ?thesis
    unfolding kc same_fields_iff [symmetric] using assms unfolding n
    by (simp del: read_prop.simps)
qed

lemma forest_kept_nth:
  "forest_kept S ns rs = (length ns \<le> length rs \<and> (\<forall>i<length ns. kept S (ns ! i) (rs ! i)))"
  by (auto simp: forest_kept_def list_all2_conv_all_nth)

lemma kept_refl: "kept S n n"
proof (induction n rule: measure_induct_rule [of size])
  case (less n)
  show ?case
  proof (cases "truthy (read_prop n ''children'')")
    case False
    then show ?thesis by (simp add: kept_leaf)
  next
    case True
    then have o: "is_obj n" by (rule truthy_children_obj)
    have "kept_children S (read_prop n ''children'') (read_prop n ''children'')"
    proof (cases "read_prop n ''children''")
      case (JArr cs)
      have "kept S (cs ! i) (cs ! i)" if "i < length cs" for i
        using that JArr by (intro less.IH) (auto intro: size_read_prop_elem)
      then show ?thesis using JArr by (simp add: kept_children_def forest_kept_nth)
    qed (simp_all add: kept_children_def)
    then show ?thesis using o by (simp add: kept_folder [OF True])
  qed
qed

lemma forest_kept_refl: "forest_kept S ns ns"
  by (simp add: forest_kept_nth kept_refl)

lemma kept_children_refl: "kept_children S c c"
  by (cases c) (simp_all add: kept_children_def forest_kept_refl)

lemma kept_mono: "set S \<subseteq> set S' \<Longrightarrow> kept S n r \<Longrightarrow> kept S' n r"
proof (induction n arbitrary: r rule: measure_induct_rule [of size])
  case (less n)
  show ?case
  proof (cases "truthy (read_prop n ''children'')")
    case False
    then show ?thesis using less.prems(2) by (simp add: kept_leaf)
  next
    case True
    have k: "is_obj r" "\<forall>k. k \<noteq> ''children'' \<longrightarrow> read_prop r k = read_prop n k"
      "if read_prop n ''title'' = JStr ''Bookmarks Bar''
         then read_prop r ''children'' = read_prop n ''children'' \<or> read_prop r ''children'' \<in> set S
         else kept_children S (read_prop n ''children'') (read_prop r ''children'')"
      using less.prems(2) unfolding kept_folder [OF True] by simp_all
    have "if read_prop n ''title'' = JStr ''Bookmarks Bar''
         then read_prop r ''children'' = read_prop n ''children'' \<or> read_prop r ''children'' \<in> set S'
         else kept_children S' (read_prop n ''children'') (read_prop r ''children'')"
    proof (cases "read_prop n ''title'' = JStr ''Bookmarks Bar''")
      case bb: True
      then show ?thesis using k(3) less.prems(1) by auto
    next
      case nb: False
      then have kc: "kept_children S (read_prop n ''children'') (read_prop r ''children'')"
        using k(3) by simp
      have "kept_children S' (read_prop n ''children'') (read_prop r ''children'')"
      proof (cases "read_prop n ''children''")
        case (JArr cs)
        then obtain rs where rs: "read_prop r ''children'' = JArr rs" and fk: "forest_kept S cs rs"
          using kc by (auto simp: kept_children_def split: jsval.splits)
        have "kept S' (cs ! i) (rs ! i)" if "i < length cs" for i
        proof -
          have "size (cs ! i) < size n" using that JArr by (auto intro: size_read_prop_elem)
          moreover have "kept S (cs ! i) (rs ! i)" using fk that by (simp add: forest_kept_nth)
          ultimately show ?thesis using less.prems(1) by (intro less.IH)
        qed
        then show ?thesis using JArr rs fk by (simp add: kept_children_def forest_kept_nth)
      qed (use kc in \<open>simp_all add: kept_children_def\<close>)
      then show ?thesis using nb by simp
    qed
    then show ?thesis using k(1,2) unfolding kept_folder [OF True] by simp
  qed
qed

lemma forest_kept_mono: "set S \<subseteq> set S' \<Longrightarrow> forest_kept S ns rs \<Longrightarrow> forest_kept S' ns rs"
  using kept_mono unfolding forest_kept_nth by blast

lemma kept_children_mono:
  "set S \<subseteq> set S' \<Longrightarrow> kept_children S c c' \<Longrightarrow> kept_children S' c c'"
  using forest_kept_mono unfolding kept_children_def by (auto split: jsval.splits)

lemma kept_trans: "kept S a b \<Longrightarrow> kept S b c \<Longrightarrow> kept S a c"
proof (induction a arbitrary: b c rule: measure_induct_rule [of size])
  case (less a)
  show ?case
  proof (cases "truthy (read_prop a ''children'')")
    case False
    then show ?thesis using less.prems by (simp add: kept_leaf)
  next
    case ta: True
    have ab: "is_obj b" "\<forall>k. k \<noteq> ''children'' \<longrightarrow> read_prop b k = read_prop a k"
      "if read_prop a ''title'' = JStr ''Bookmarks Bar''
         then read_prop b ''children'' = read_prop a ''children'' \<or> read_prop b ''children'' \<in> set S
         else kept_children S (read_prop a ''children'') (read_prop b ''children'')"
      using less.prems(1) unfolding kept_folder [OF ta] by simp_all
    have tb: "read_prop b ''title'' = read_prop a ''title''" using ab(2) by simp
    show ?thesis
    proof (cases "truthy (read_prop b ''children'')")
      case False
      then have "c = b" using less.prems(2) by (simp add: kept_leaf)
      then show ?thesis using less.prems(1) by simp
    next
      case True
      have bc: "is_obj c" "\<forall>k. k \<noteq> ''children'' \<longrightarrow> read_prop c k = read_prop b k"
        "if read_prop a ''title'' = JStr ''Bookmarks Bar''
           then read_prop c ''children'' = read_prop b ''children'' \<or> read_prop c ''children'' \<in> set S
           else kept_children S (read_prop b ''children'') (read_prop c ''children'')"
        using less.prems(2) unfolding kept_folder [OF True] tb by simp_all
      have f: "\<forall>k. k \<noteq> ''children'' \<longrightarrow> read_prop c k = read_prop a k" using ab(2) bc(2) by simp
      have "if read_prop a ''title'' = JStr ''Bookmarks Bar''
           then read_prop c ''children'' = read_prop a ''children'' \<or> read_prop c ''children'' \<in> set S
           else kept_children S (read_prop a ''children'') (read_prop c ''children'')"
      proof (cases "read_prop a ''title'' = JStr ''Bookmarks Bar''")
        case bb: True
        then show ?thesis using ab(3) bc(3) by auto
      next
        case nb: False
        then have k1: "kept_children S (read_prop a ''children'') (read_prop b ''children'')"
          and k2: "kept_children S (read_prop b ''children'') (read_prop c ''children'')"
          using ab(3) bc(3) by simp_all
        have "kept_children S (read_prop a ''children'') (read_prop c ''children'')"
        proof (cases "read_prop a ''children''")
          case (JArr cs)
          then obtain rs where rs: "read_prop b ''children'' = JArr rs" and f1: "forest_kept S cs rs"
            using k1 by (auto simp: kept_children_def split: jsval.splits)
          then obtain rs' where rs': "read_prop c ''children'' = JArr rs'" and f2: "forest_kept S rs rs'"
            using k2 by (auto simp: kept_children_def split: jsval.splits)
          have "kept S (cs ! i) (rs' ! i)" if i: "i < length cs" for i
          proof -
            have sz: "size (cs ! i) < size a" using i JArr by (auto intro: size_read_prop_elem)
            have 1: "kept S (cs ! i) (rs ! i)" using f1 i by (simp add: forest_kept_nth)
            have "i < length rs" using f1 i by (simp add: forest_kept_nth)
            then have 2: "kept S (rs ! i) (rs' ! i)" using f2 by (simp add: forest_kept_nth)
            show ?thesis using sz 1 2 by (rule less.IH)
          qed
          moreover have "length cs \<le> length rs'" using f1 f2 by (simp add: forest_kept_nth)
          ultimately show ?thesis using JArr rs' by (simp add: kept_children_def forest_kept_nth)
        qed (use k1 k2 in \<open>simp_all add: kept_children_def\<close>)
        then show ?thesis using nb by simp
      qed
      then show ?thesis using bc(1) f unfolding kept_folder [OF ta] by simp
    qed
  qed
qed

lemma forest_kept_trans:
  assumes "forest_kept S as bs" and "forest_kept S bs cs"
  shows "forest_kept S as cs"
proof -
  have "kept S (as ! i) (cs ! i)" if "i < length as" for i
  proof -
    have "kept S (as ! i) (bs ! i)" using assms(1) that by (simp add: forest_kept_nth)
    moreover have "i < length bs" using assms(1) that by (simp add: forest_kept_nth)
    then have "kept S (bs ! i) (cs ! i)" using assms(2) by (simp add: forest_kept_nth)
    ultimately show ?thesis by (rule kept_trans)
  qed
  moreover have "length as \<le> length cs" using assms by (simp add: forest_kept_nth)
  ultimately show ?thesis by (simp add: forest_kept_nth)
qed

lemma kept_children_trans:
  "kept_children S a b \<Longrightarrow> kept_children S b c \<Longrightarrow> kept_children S a c"
  unfolding kept_children_def
  by (cases a; cases b; cases c) (auto intro: forest_kept_trans)

lemma forest_kept_append: "forest_kept S ns (ns @ xs)"
  by (simp add: forest_kept_nth nth_append kept_refl)

lemma forest_kept_update:
  assumes "i < length ns" and "kept S (ns ! i) r"
  shows "forest_kept S ns (ns[i := r])"
  unfolding forest_kept_nth using assms by (auto simp: nth_list_update kept_refl)

lemma is_json_clone_val: "v \<noteq> JUndefined \<Longrightarrow> is_json (clone_val v)"
proof (induction v rule: clone_val.induct)
  case (1 xs)
  have "is_json (if x = JUndefined then JNull else clone_val x)" if "x \<in> set xs" for x
    using 1(1) [OF that] by simp
  then have "list_all (\<lambda>x. is_json (if x = JUndefined then JNull else clone_val x)) xs"
    unfolding list_all_iff by blast
  then show ?case by (simp add: list.pred_map comp_def)
next
  case (2 ps)
  have "is_json (clone_val v)" if "(k, v) \<in> set ps" "v \<noteq> JUndefined" for k v
    using 2(1) [of "(k, v)" k v] that by simp
  then show ?case by (auto simp: list_all_iff)
qed simp_all

lemma is_json_read_prop: "is_json n \<Longrightarrow> read_prop n k \<noteq> JUndefined \<Longrightarrow> is_json (read_prop n k)"
proof (cases n)
  case (JObj ps)
  assume j: "is_json n" and r: "read_prop n k \<noteq> JUndefined"
  then obtain v where v: "map_of ps k = Some v" using JObj by (auto split: option.splits)
  then have "(k, v) \<in> set ps" by (rule map_of_SomeD)
  then have "is_json v" using j JObj by (auto simp: list_all_iff)
  then show ?thesis using JObj v by simp
qed simp_all

lemma is_json_iter_items:
  "is_json c \<Longrightarrow> iter_items c = Inr items \<Longrightarrow> x \<in> set items \<Longrightarrow> is_json x"
  by (cases c) (auto simp: list_all_iff)

lemma bb_children_folder:
  assumes "truthy (read_prop c ''children'')"
  shows "bb_children c =
     (if read_prop c ''title'' = JStr ''Bookmarks Bar'' then [read_prop c ''children'']
      else (case iter_items (read_prop c ''children'') of
              Inr items \<Rightarrow> concat (map bb_children items) | Inl e \<Rightarrow> []))"
proof -
  obtain ps where "c = JObj ps" using assms by (cases c) simp_all
  then show ?thesis using assms by (simp del: read_prop.simps)
qed

lemma incoming_bars_Cons:
  "incoming_bars (s # rest) = bb_children (clone_val s) @ incoming_bars rest"
  by (simp add: incoming_bars_def)

lemma incoming_bars_items:
  assumes j: "is_json c" and t: "truthy (read_prop c ''children'')"
    and nb: "read_prop c ''title'' \<noteq> JStr ''Bookmarks Bar''"
    and it: "iter_items (read_prop c ''children'') = Inr items"
  shows "incoming_bars items = bb_children c"
proof -
  have jc: "is_json (read_prop c ''children'')" using j t by (intro is_json_read_prop) auto
  have "clone_val x = x" if "x \<in> set items" for x
    using is_json_iter_items [OF jc it that] by (rule clone_val_json)
  then have m: "map (\<lambda>s. bb_children (clone_val s)) items = map bb_children items"
    by (intro map_cong) simp_all
  show ?thesis unfolding bb_children_folder [OF t] incoming_bars_def m using nb it by simp
qed

lemma find_folder_Some:
  assumes "find_folder ts t = Inr (Some i)"
  shows "i < length ts" and "folder_titled t (ts ! i)" and "is_obj (ts ! i)"
proof -
  have "first_index (folder_titled t) ts = Some i" using find_folder_Inr [OF assms] by simp
  then show "i < length ts" and f: "folder_titled t (ts ! i)"
    using first_index_Some by blast+
  then show "is_obj (ts ! i)" by (auto simp: folder_titled_def intro: truthy_children_obj)
qed

lemma kept_children_arrays:
  "forest_kept S ts ts' \<Longrightarrow> kept_children S (JArr ts) (JArr ts')"
  by (simp add: kept_children_def)

lemma mergeNodes_kept:
  "mergeNodes target srcs = Inr res \<Longrightarrow> kept_children (incoming_bars srcs) target res"
proof (induction target srcs arbitrary: res rule: mergeNodes.induct)
  case (1 target)
  then show ?case by (simp add: kept_children_refl)
next
  case (2 target src rest)
  define S where "S = incoming_bars (src # rest)"
  have sub_rest: "set (incoming_bars rest) \<subseteq> set S" by (auto simp: S_def incoming_bars_Cons)
  have sub_src: "set (bb_children (clone_val src)) \<subseteq> set S" by (auto simp: S_def incoming_bars_Cons)
  from "2.prems" have "kept_children S target res"
  proof (cases rule: mergeNodes_Cons_cases)
    case (push_folder c ts)
    have jc: "jsonClone src = Inr c" using push_folder(1,2) by (simp add: jsonClone_def)
    have g: "get_prop c k = Inr (read_prop c k)" for k using push_folder(3) by (rule non_null_get_prop)
    have aa: "as_array target = Inr ts" using push_folder(5) by simp
    have "kept_children (incoming_bars rest) (JArr (ts @ [c])) res"
      by (rule "2.IH"(1) [OF jc g push_folder(4) aa g push_folder(6) refl push_folder(7)])
    then have "kept_children S (JArr (ts @ [c])) res" using sub_rest by (rule kept_children_mono [rotated])
    moreover have "kept_children S (JArr ts) (JArr (ts @ [c]))"
      by (intro kept_children_arrays forest_kept_append)
    ultimately show ?thesis unfolding push_folder(5) by (rule kept_children_trans [rotated])
  next
    case (replace c ts i)
    have jc: "jsonClone src = Inr c" using replace(1,2) by (simp add: jsonClone_def)
    have g: "get_prop c k = Inr (read_prop c k)" for k using replace(3) by (rule non_null_get_prop)
    have aa: "as_array target = Inr ts" using replace(5) by simp
    have se: "strict_eq (read_prop c ''title'') (JStr ''Bookmarks Bar'')"
      using replace(7) by (simp add: strict_eq_def)
    define r where "r = set_prop (ts ! i) ''children'' (read_prop c ''children'')"
    have "kept_children (incoming_bars rest) (JArr (ts[i := r])) res"
      unfolding r_def
      by (rule "2.IH"(2) [OF jc g replace(4) aa g replace(6) refl se replace(8)])
    then have 1: "kept_children S (JArr (ts[i := r])) res"
      using sub_rest by (rule kept_children_mono [rotated])
    note ff = find_folder_Some [OF replace(6)]
    have tn: "truthy (read_prop (ts ! i) ''children'')"
      and bt: "read_prop (ts ! i) ''title'' = JStr ''Bookmarks Bar''"
      using ff(2) replace(7) by (simp_all add: folder_titled_def strict_eq_def)
    have "read_prop c ''children'' \<in> set (bb_children c)"
      by (simp add: bb_children_folder [OF replace(4)] replace(7))
    then have "read_prop c ''children'' \<in> set S" using sub_src replace(2) by auto
    then have "kept S (ts ! i) r"
      unfolding kept_folder [OF tn] r_def using ff(3) bt
      by (simp add: read_set_prop read_set_prop_other)
    then have "kept_children S (JArr ts) (JArr (ts[i := r]))"
      using ff(1) by (intro kept_children_arrays forest_kept_update)
    then show ?thesis unfolding replace(5) using 1 by (rule kept_children_trans)
  next
    case (recurse c ts i items mc)
    have jc: "jsonClone src = Inr c" using recurse(1,2) by (simp add: jsonClone_def)
    have g: "get_prop c k = Inr (read_prop c k)" for k using recurse(3) by (rule non_null_get_prop)
    have aa: "as_array target = Inr ts" using recurse(5) by simp
    have se: "\<not> strict_eq (read_prop c ''title'') (JStr ''Bookmarks Bar'')"
      using recurse(7) by (simp add: strict_eq_def)
    note ff = find_folder_Some [OF recurse(6)]
    define ex where "ex = set_prop (ts ! i) ''title'' (read_prop c ''title'')"
    have oex: "is_obj ex" using ff(3) by (simp add: ex_def)
    have gex: "get_prop ex ''children'' = Inr (read_prop ex ''children'')"
      using oex by (rule get_prop_obj)
    define r where "r = set_prop ex ''children'' mc"
    have inner: "kept_children (incoming_bars items) (read_prop ex ''children'') mc"
      using recurse(9) unfolding ex_def [symmetric]
      by (rule "2.IH"(3) [OF jc g recurse(4) aa g recurse(6) refl se ex_def gex recurse(8)])
    have "kept_children (incoming_bars rest) (JArr (ts[i := r])) res"
      using recurse(10) unfolding ex_def [symmetric] r_def
      by (rule "2.IH"(4) [OF jc g recurse(4) aa g recurse(6) refl se ex_def gex recurse(8)
            recurse(9) [unfolded ex_def [symmetric]]])
    then have 1: "kept_children S (JArr (ts[i := r])) res"
      using sub_rest by (rule kept_children_mono [rotated])
    have jsc: "is_json c" unfolding recurse(2) using recurse(1) by (rule is_json_clone_val)
    have "incoming_bars items = bb_children c"
      using jsc recurse(4) recurse(7) recurse(8) by (rule incoming_bars_items)
    then have "set (incoming_bars items) \<subseteq> set S" using sub_src recurse(2) by simp
    then have inner': "kept_children S (read_prop ex ''children'') mc"
      using inner by (rule kept_children_mono)
    have tn: "truthy (read_prop (ts ! i) ''children'')"
      and tt: "read_prop (ts ! i) ''title'' = read_prop c ''title''"
      using ff(2) by (simp_all add: folder_titled_def strict_eq_def)
    have exc: "read_prop ex ''children'' = read_prop (ts ! i) ''children''"
      by (simp add: ex_def read_set_prop_other)
    have exk: "read_prop ex k = read_prop (ts ! i) k" for k
      using tt ff(3) by (simp add: ex_def read_set_prop)
    have "kept S (ts ! i) r"
      unfolding kept_folder [OF tn] r_def using oex inner' recurse(7)
      by (simp add: read_set_prop exk tt)
    then have "kept_children S (JArr ts) (JArr (ts[i := r]))"
      using ff(1) by (intro kept_children_arrays forest_kept_update)
    then show ?thesis unfolding recurse(5) using 1 by (rule kept_children_trans)
  next
    case (duplicate c ts)
    have jc: "jsonClone src = Inr c" using duplicate(1,2) by (simp add: jsonClone_def)
    have g: "get_prop c k = Inr (read_prop c k)" for k using duplicate(3) by (rule non_null_get_prop)
    have aa: "as_array target = Inr ts" using duplicate(5) by simp
    have "kept_children (incoming_bars rest) target res"
      by (rule "2.IH"(5) [OF jc g duplicate(4) aa duplicate(6) _ duplicate(7)]) simp
    then show ?thesis using sub_rest by (rule kept_children_mono [rotated])
  next
    case (push_leaf c ts)
    have jc: "jsonClone src = Inr c" using push_leaf(1,2) by (simp add: jsonClone_def)
    have g: "get_prop c k = Inr (read_prop c k)" for k using push_leaf(3) by (rule non_null_get_prop)
    have aa: "as_array target = Inr ts" using push_leaf(5) by simp
    have "kept_children (incoming_bars rest) (JArr (ts @ [c])) res"
      by (rule "2.IH"(6) [OF jc g push_leaf(4) aa push_leaf(6) _ push_leaf(7)]) simp
    then have "kept_children S (JArr (ts @ [c])) res" using sub_rest by (rule kept_children_mono [rotated])
    moreover have "kept_children S (JArr ts) (JArr (ts @ [c]))"
      by (intro kept_children_arrays forest_kept_append)
    ultimately show ?thesis unfolding push_leaf(5) by (rule kept_children_trans [rotated])
  qed
  then show ?case unfolding S_def .
qed

section \<open>The Bookmarks Bar folder is replaced\<close>











section \<open>Base nodes survive the merge\<close>

text \<open>
  Claim C10. Whenever \<open>mergeBookmarkTrees\<close> returns on a JSON base forest, the result
  starts with the base nodes, in their order, each of them kept in the sense of \<open>kept\<close>:
  leaves unchanged, folders with all their fields and with their old children still in
  front of any new ones, at every depth; only a folder titled \<open>Bookmarks Bar\<close> may have
  its children replaced, and then by the children of an incoming folder of that title.
\<close>

theorem base_nodes_kept:
  assumes "is_json (JArr base)"
    and "mergeBookmarkTrees (JArr base) (JArr incoming) = Inr res"
  shows "\<exists>rs. res = JArr rs \<and> forest_kept (incoming_bars incoming) base rs"
proof -
  have "clone_val (JArr base) = JArr base" using assms(1) by (rule clone_val_json)
  then have "mergeNodes (JArr base) incoming = Inr res"
    using assms(2) by (simp add: mergeBookmarkTrees_def jsonClone_def)
  then have "kept_children (incoming_bars incoming) (JArr base) res" by (rule mergeNodes_kept)
  then show ?thesis by (cases res) (simp_all add: kept_children_def)
qed

text \<open>
  An instance: the base folder \<open>Work\<close> gains the incoming leaf after its own, and the
  children of the base \<open>Bookmarks Bar\<close> give way to the (empty) incoming ones.
\<close>

theorem base_nodes_kept_witness:
  "is_json (JArr
      [JObj [(''title'', JStr ''Work''),
             (''children'', JArr [JObj [(''title'', JStr ''A''), (''url'', JStr ''http://a'')]])],
       JObj [(''title'', JStr ''Bookmarks Bar''),
             (''children'', JArr [JObj [(''title'', JStr ''C''), (''url'', JStr ''http://c'')]])]])
   \<and> mergeBookmarkTrees
      (JArr
      [JObj [(''title'', JStr ''Work''),
             (''children'', JArr [JObj [(''title'', JStr ''A''), (''url'', JStr ''http://a'')]])],
       JObj [(''title'', JStr ''Bookmarks Bar''),
             (''children'', JArr [JObj [(''title'', JStr ''C''), (''url'', JStr ''http://c'')]])]])
      (JArr
      [JObj [(''title'', JStr ''Work''),
             (''children'', JArr [JObj [(''title'', JStr ''B''), (''url'', JStr ''http://b'')]])],
       JObj [(''title'', JStr ''Bookmarks Bar''), (''children'', JArr [])]])
    = Inr (JArr
      [JObj [(''title'', JStr ''Work''),
             (''children'', JArr [JObj [(''title'', JStr ''A''), (''url'', JStr ''http://a'')],
                                  JObj [(''title'', JStr ''B''), (''url'', JStr ''http://b'')]])],
       JObj [(''title'', JStr ''Bookmarks Bar''), (''children'', JArr [])]])
   \<and> (\<exists>rs. JArr
      [JObj [(''title'', JStr ''Work''),
             (''children'', JArr [JObj [(''title'', JStr ''A''), (''url'', JStr ''http://a'')],
                                  JObj [(''title'', JStr ''B''), (''url'', JStr ''http://b'')]])],
       JObj [(''title'', JStr ''Bookmarks Bar''), (''children'', JArr [])]] = JArr rs
        \<and> forest_kept
            (incoming_bars
              [JObj [(''title'', JStr ''Work''),
                     (''children'', JArr [JObj [(''title'', JStr ''B''), (''url'', JStr ''http://b'')]])],
               JObj [(''title'', JStr ''Bookmarks Bar''), (''children'', JArr [])]])
            [JObj [(''title'', JStr ''Work''),
                   (''children'', JArr [JObj [(''title'', JStr ''A''), (''url'', JStr ''http://a'')]])],
             JObj [(''title'', JStr ''Bookmarks Bar''),
                   (''children'', JArr [JObj [(''title'', JStr ''C''), (''url'', JStr ''http://c'')]])]]
            rs)"
proof -
  have j: "is_json (JArr
      [JObj [(''title'', JStr ''Work''),
             (''children'', JArr [JObj [(''title'', JStr ''A''), (''url'', JStr ''http://a'')]])],
       JObj [(''title'', JStr ''Bookmarks Bar''),
             (''children'', JArr [JObj [(''title'', JStr ''C''), (''url'', JStr ''http://c'')]])]])"
    by simp
  have h: "mergeBookmarkTrees
      (JArr
      [JObj [(''title'', JStr ''Work''),
             (''children'', JArr [JObj [(''title'', JStr ''A''), (''url'', JStr ''http://a'')]])],
       JObj [(''title'', JStr ''Bookmarks Bar''),
             (''children'', JArr [JObj [(''title'', JStr ''C''), (''url'', JStr ''http://c'')]])]])
      (JArr
      [JObj [(''title'', JStr ''Work''),
             (''children'', JArr [JObj [(''title'', JStr ''B''), (''url'', JStr ''http://b'')]])],
       JObj [(''title'', JStr ''Bookmarks Bar''), (''children'', JArr [])]])
    = Inr (JArr
      [JObj [(''title'', JStr ''Work''),
             (''children'', JArr [JObj [(''title'', JStr ''A''), (''url'', JStr ''http://a'')],
                                  JObj [(''title'', JStr ''B''), (''url'', JStr ''http://b'')]])],
       JObj [(''title'', JStr ''Bookmarks Bar''), (''children'', JArr [])]])"
    by (simp add: tree_defs)
  show ?thesis using j h base_nodes_kept [OF j h] by blast
qed

section \<open>Folders of the same title are merged\<close>













section \<open>The change summary counts set differences\<close>

lemma map_r_total:
  "(\<And>x. x \<in> set xs \<Longrightarrow> f x = Inr (g x)) \<Longrightarrow> map_r f xs = Inr (map g xs)"
  by (induction xs) simp_all

lemma item_ids_records:
  "list_all has_id items \<Longrightarrow> item_ids (JArr items) = Inr (map (\<lambda>item. read_prop item ''id'') items)"
  unfolding item_ids_def
  by (simp add: map_r_total [where g = "\<lambda>item. read_prop item ''id''"] non_null_get_prop
      has_id_def list_all_iff)

lemma set_has_prim: "is_prim x \<Longrightarrow> set_has s x = (x \<in> set s)"
  by (auto simp: set_has_def strict_eq_def list_ex_iff)

lemma foldl_set_add:
  "list_all is_prim xs \<Longrightarrow> distinct acc
   \<Longrightarrow> set (foldl set_add acc xs) = set acc \<union> set xs \<and> distinct (foldl set_add acc xs)"
proof (induction xs arbitrary: acc)
  case Nil
  then show ?case by simp
next
  case (Cons x xs)
  have p: "is_prim x" and ps: "list_all is_prim xs" using Cons.prems(1) by simp_all
  have d: "distinct (set_add acc x)" using Cons.prems(2) p by (simp add: set_add_def set_has_prim)
  have s: "set (set_add acc x) = insert x (set acc)"
    using p by (auto simp: set_add_def set_has_prim)
  show ?case using Cons.IH [OF ps d] s by simp
qed

lemma new_Set_prims:
  "list_all is_prim xs \<Longrightarrow> set (new_Set xs) = set xs \<and> distinct (new_Set xs)"
  unfolding new_Set_def using foldl_set_add [of xs "[]"] by simp

lemma length_filter_diff:
  assumes "list_all is_prim xs" "list_all is_prim ys"
  shows "length (filter (\<lambda>i. \<not> set_has (new_Set ys) i) (new_Set xs)) = card (set xs - set ys)"
proof -
  note x = new_Set_prims [OF assms(1)] and y = new_Set_prims [OF assms(2)]
  have prim: "\<And>i. i \<in> set (new_Set xs) \<Longrightarrow> is_prim i"
    using x assms(1) by (simp add: list_all_iff)
  have "filter (\<lambda>i. \<not> set_has (new_Set ys) i) (new_Set xs)
        = filter (\<lambda>i. i \<notin> set ys) (new_Set xs)"
    by (rule filter_cong) (simp_all add: set_has_prim prim y)
  moreover have "distinct (filter (\<lambda>i. i \<notin> set ys) (new_Set xs))" using x by simp
  moreover have "set (filter (\<lambda>i. i \<notin> set ys) (new_Set xs)) = set xs - set ys"
    using x by auto
  ultimately show ?thesis by (metis distinct_card)
qed

lemma diffById_counts:
  assumes "list_all has_id cur" "list_all has_id prev"
  shows "diffById (JArr cur) (JArr prev)
          = Inr \<lparr>addedCount = card (id_set cur - id_set prev),
                 removedCount = card (id_set prev - id_set cur)\<rparr>"
proof -
  have c: "list_all is_prim (map (\<lambda>item. read_prop item ''id'') cur)"
    using assms(1) by (simp add: list_all_iff has_id_def)
  have p: "list_all is_prim (map (\<lambda>item. read_prop item ''id'') prev)"
    using assms(2) by (simp add: list_all_iff has_id_def)
  show ?thesis
    unfolding diffById_def item_ids_records [OF assms(1)] item_ids_records [OF assms(2)]
      id_set_def Let_def bind_r_simps
      length_filter_diff [OF c p] length_filter_diff [OF p c] ..
qed

text \<open>
  Claim C8. On two lists of records with primitive ids, \<open>diffById\<close> returns as
  \<open>addedCount\<close> the number of ids of the current list that are not ids of the previous
  one, and as \<open>removedCount\<close> the number of ids of the previous list that are not ids of
  the current one. The result is a function of the two sets of ids: any two lists with the
  same ids, in whatever order and however often repeated, give the same counts.
\<close>

theorem diffById_set_difference:
  assumes "list_all has_id cur" "list_all has_id prev"
  shows "diffById (JArr cur) (JArr prev)
          = Inr \<lparr>addedCount = card (id_set cur - id_set prev),
                 removedCount = card (id_set prev - id_set cur)\<rparr>
     \<and> (\<forall>cur' prev'. list_all has_id cur' \<and> list_all has_id prev'
            \<and> id_set cur' = id_set cur \<and> id_set prev' = id_set prev
          \<longrightarrow> diffById (JArr cur') (JArr prev') = diffById (JArr cur) (JArr prev))"
  using assms by (simp add: diffById_counts)

text \<open>
  An instance: \<open>a, b, a\<close> against \<open>c, b\<close> gives one id added and one removed, and so do
  \<open>b, a\<close> against \<open>b, c, c\<close>.
\<close>

theorem diffById_set_difference_witness:
  "list_all has_id [JObj [(''id'', JStr ''a'')], JObj [(''id'', JStr ''b'')],
                    JObj [(''id'', JStr ''a'')]]
   \<and> list_all has_id [JObj [(''id'', JStr ''c'')], JObj [(''id'', JStr ''b'')]]
   \<and> diffById (JArr [JObj [(''id'', JStr ''a'')], JObj [(''id'', JStr ''b'')],
                      JObj [(''id'', JStr ''a'')]])
               (JArr [JObj [(''id'', JStr ''c'')], JObj [(''id'', JStr ''b'')]])
       = Inr \<lparr>addedCount = 1, removedCount = 1\<rparr>
   \<and> diffById (JArr [JObj [(''id'', JStr ''b'')], JObj [(''id'', JStr ''a'')]])
               (JArr [JObj [(''id'', JStr ''b'')], JObj [(''id'', JStr ''c'')],
                      JObj [(''id'', JStr ''c'')]])
       = diffById (JArr [JObj [(''id'', JStr ''a'')], JObj [(''id'', JStr ''b'')],
                      JObj [(''id'', JStr ''a'')]])
               (JArr [JObj [(''id'', JStr ''c'')], JObj [(''id'', JStr ''b'')]])"
proof -
  have h1: "list_all has_id [JObj [(''id'', JStr ''a'')], JObj [(''id'', JStr ''b'')],
                    JObj [(''id'', JStr ''a'')]]"
    by (simp add: has_id_def non_null_def)
  have h2: "list_all has_id [JObj [(''id'', JStr ''c'')], JObj [(''id'', JStr ''b'')]]"
    by (simp add: has_id_def non_null_def)
  have s1: "id_set [JObj [(''id'', JStr ''a'')], JObj [(''id'', JStr ''b'')],
                    JObj [(''id'', JStr ''a'')]] - id_set [JObj [(''id'', JStr ''c'')], JObj [(''id'', JStr ''b'')]]
            = {JStr ''a''}"
    by (auto simp: id_set_def)
  have s2: "id_set [JObj [(''id'', JStr ''c'')], JObj [(''id'', JStr ''b'')]]
            - id_set [JObj [(''id'', JStr ''a'')], JObj [(''id'', JStr ''b'')],
                    JObj [(''id'', JStr ''a'')]]
            = {JStr ''c''}"
    by (auto simp: id_set_def)
  note r = diffById_set_difference [OF h1 h2]
  have a: "diffById (JArr [JObj [(''id'', JStr ''a'')], JObj [(''id'', JStr ''b'')],
                      JObj [(''id'', JStr ''a'')]])
               (JArr [JObj [(''id'', JStr ''c'')], JObj [(''id'', JStr ''b'')]])
       = Inr \<lparr>addedCount = 1, removedCount = 1\<rparr>"
    using r [THEN conjunct1] unfolding s1 s2 by simp
  have b: "diffById (JArr [JObj [(''id'', JStr ''b'')], JObj [(''id'', JStr ''a'')]])
               (JArr [JObj [(''id'', JStr ''b'')], JObj [(''id'', JStr ''c'')],
                      JObj [(''id'', JStr ''c'')]])
       = diffById (JArr [JObj [(''id'', JStr ''a'')], JObj [(''id'', JStr ''b'')],
                      JObj [(''id'', JStr ''a'')]])
               (JArr [JObj [(''id'', JStr ''c'')], JObj [(''id'', JStr ''b'')]])"
    by (rule r [THEN conjunct2, rule_format])
       (auto simp: has_id_def non_null_def id_set_def)
  show ?thesis using h1 h2 a b by blast
qed


section \<open>The HTML of a folder with two bookmarks\<close>









section \<open>The arguments are not mutated\<close>

lemma unchanged_refl: "unchanged n0 s s"
  by (simp add: unchanged_def)

lemma unchanged_trans: "unchanged n0 s s1 \<Longrightarrow> unchanged n0 s1 s2 \<Longrightarrow> unchanged n0 s s2"
  by (simp add: unchanged_def)

lemma region_ok_cell:
  "region_ok n0 s \<Longrightarrow> n0 \<le> a \<Longrightarrow> h_cell s a = Some c \<Longrightarrow> x \<in> set (cell_vals c) \<Longrightarrow> fresh_val n0 x"
proof -
  assume r: "region_ok n0 s" and a: "n0 \<le> a" and c: "h_cell s a = Some c"
    and x: "x \<in> set (cell_vals c)"
  have al: "a < length s" and ce: "c = s ! a" using c by (auto simp: h_cell_def split: if_splits)
  have "c \<in> set (drop n0 s)"
    unfolding ce in_set_conv_nth
    by (rule exI [of _ "a - n0"]) (use a al in simp)
  then show ?thesis using r x by (auto simp: region_ok_def list_all_iff)
qed

lemma region_okI:
  assumes "n0 \<le> length s"
    and "\<And>a x. n0 \<le> a \<Longrightarrow> a < length s \<Longrightarrow> x \<in> set (cell_vals (s ! a)) \<Longrightarrow> fresh_val n0 x"
  shows "region_ok n0 s"
  unfolding region_ok_def list_all_iff
proof (intro conjI ballI)
  show "n0 \<le> length s" by (rule assms(1))
next
  fix c x assume c: "c \<in> set (drop n0 s)" and x: "x \<in> set (cell_vals c)"
  obtain i where i: "i < length (drop n0 s)" "c = drop n0 s ! i"
    using c by (auto simp: in_set_conv_nth)
  have "c = s ! (n0 + i)" using i assms(1) by simp
  then show "fresh_val n0 x" using assms(2) [of "n0 + i" x] i x by simp
qed

lemma region_ok_update:
  assumes r: "region_ok n0 s" and a: "n0 \<le> a"
    and c: "list_all (fresh_val n0) (cell_vals c)"
  shows "region_ok n0 (s[a := c]) \<and> unchanged n0 s (s[a := c])"
proof
  show "region_ok n0 (s[a := c])"
  proof (rule region_okI)
    show "n0 \<le> length (s[a := c])" using r by (simp add: region_ok_def)
  next
    fix b x assume b: "n0 \<le> b" "b < length (s[a := c])" and x: "x \<in> set (cell_vals (s[a := c] ! b))"
    show "fresh_val n0 x"
    proof (cases "b = a")
      case True
      then show ?thesis using b x c by (simp add: list_all_iff)
    next
      case False
      then have "h_cell s b = Some (s ! b)" "x \<in> set (cell_vals (s ! b))"
        using b x by (simp_all add: h_cell_def)
      then show ?thesis using region_ok_cell [OF r b(1)] by blast
    qed
  qed
next
  show "unchanged n0 s (s[a := c])" using a by (simp add: unchanged_def)
qed

lemma region_ok_alloc:
  assumes r: "region_ok n0 s" and c: "list_all (fresh_val n0) (cell_vals c)"
    and al: "alloc c s = (v, s')"
  shows "region_ok n0 s' \<and> unchanged n0 s s' \<and> fresh_val n0 v"
proof -
  have n: "n0 \<le> length s" using r by (simp add: region_ok_def)
  have v: "v = HRef (length s)" and s': "s' = s @ [c]" using al by (simp_all add: alloc_def)
  have "region_ok n0 s'"
    using r c n unfolding s' region_ok_def by simp
  moreover have "unchanged n0 s s'" using n by (simp add: unchanged_def s')
  moreover have "fresh_val n0 v" using n by (simp add: v)
  ultimately show ?thesis by blast
qed

lemma fresh_own_props:
  "region_ok n0 s \<Longrightarrow> fresh_val n0 v \<Longrightarrow> list_all (fresh_val n0) (map snd (h_own_props s v))"
proof (cases v)
  case (HRef a)
  assume r: "region_ok n0 s" and f: "fresh_val n0 v"
  show ?thesis
  proof (cases "h_cell s a")
    case None
    then show ?thesis using HRef by simp
  next
    case (Some c)
    show ?thesis
    proof (cases c)
      case (HArr xs)
      then show ?thesis using HRef Some by simp
    next
      case (HObj ps)
      have "\<And>x. x \<in> set (cell_vals c) \<Longrightarrow> fresh_val n0 x"
        using region_ok_cell [OF r _ Some] f HRef by simp
      then show ?thesis using HRef Some HObj by (simp add: list_all_iff)
    qed
  qed
qed simp_all

lemma fresh_prop: "region_ok n0 s \<Longrightarrow> fresh_val n0 v \<Longrightarrow> fresh_val n0 (h_prop s v k)"
proof -
  assume r: "region_ok n0 s" and f: "fresh_val n0 v"
  show ?thesis
  proof (cases "map_of (h_own_props s v) k")
    case None
    then show ?thesis by (simp add: h_prop_def)
  next
    case (Some x)
    then have "(k, x) \<in> set (h_own_props s v)" by (rule map_of_SomeD)
    then have "x \<in> set (map snd (h_own_props s v))" by force
    then have "fresh_val n0 x" using fresh_own_props [OF r f] unfolding list_all_iff by blast
    then show ?thesis using Some by (simp add: h_prop_def)
  qed
qed

lemma fresh_elems:
  "region_ok n0 s \<Longrightarrow> fresh_val n0 v \<Longrightarrow> h_elems s v = Inr xs \<Longrightarrow> list_all (fresh_val n0) xs"
proof (cases v)
  case (HRef a)
  assume r: "region_ok n0 s" and f: "fresh_val n0 v" and e: "h_elems s v = Inr xs"
  have c: "h_cell s a = Some (HArr xs)"
    using e HRef by (auto split: option.splits cell.splits)
  have "\<And>x. x \<in> set (cell_vals (HArr xs)) \<Longrightarrow> fresh_val n0 x"
    using region_ok_cell [OF r _ c] f HRef by simp
  then show ?thesis by (simp add: list_all_iff)
qed simp_all

lemma set_update_vals:
  "x \<in> set (map snd (AList.update k v ps)) \<Longrightarrow> x = v \<or> x \<in> set (map snd ps)"
  by (induction ps) (auto split: if_splits)

lemma region_ok_write:
  assumes r: "region_ok n0 s" and t: "fresh_val n0 tgt" and x: "fresh_val n0 x"
  shows "region_ok n0 (h_write s tgt k x) \<and> unchanged n0 s (h_write s tgt k x)"
proof (cases tgt)
  case (HRef a)
  show ?thesis
  proof (cases "h_cell s a")
    case None
    then show ?thesis using HRef r by (simp add: unchanged_refl)
  next
    case (Some c)
    show ?thesis
    proof (cases c)
      case (HArr xs)
      then show ?thesis using HRef Some r by (simp add: unchanged_refl)
    next
      case (HObj ps)
      have old: "\<And>y. y \<in> set (cell_vals c) \<Longrightarrow> fresh_val n0 y"
        using region_ok_cell [OF r _ Some] t HRef by simp
      have "list_all (fresh_val n0) (cell_vals (HObj (AList.update k x ps)))"
        unfolding list_all_iff using set_update_vals [of _ k x ps] old x HObj by auto
      then show ?thesis
        using region_ok_update [OF r, of a] t HRef Some HObj by simp
    qed
  qed
qed (use r in \<open>simp_all add: unchanged_refl\<close>)

lemma region_ok_push:
  assumes r: "region_ok n0 s" and t: "fresh_val n0 tgt" and x: "fresh_val n0 x"
  shows "region_ok n0 (h_push s tgt x) \<and> unchanged n0 s (h_push s tgt x)"
proof (cases tgt)
  case (HRef a)
  show ?thesis
  proof (cases "h_cell s a")
    case None
    then show ?thesis using HRef r by (simp add: unchanged_refl)
  next
    case (Some c)
    show ?thesis
    proof (cases c)
      case (HObj ps)
      then show ?thesis using HRef Some r by (simp add: unchanged_refl)
    next
      case (HArr xs)
      have old: "\<And>y. y \<in> set (cell_vals c) \<Longrightarrow> fresh_val n0 y"
        using region_ok_cell [OF r _ Some] t HRef by simp
      have "list_all (fresh_val n0) (cell_vals (HArr (xs @ [x])))"
        unfolding list_all_iff using old x HArr by auto
      then show ?thesis
        using region_ok_update [OF r, of a] t HRef Some HArr by simp
    qed
  qed
qed (use r in \<open>simp_all add: unchanged_refl\<close>)

lemma region_ok_set_index:
  assumes r: "region_ok n0 s" and t: "fresh_val n0 tgt" and x: "fresh_val n0 x"
  shows "region_ok n0 (h_set_index s tgt i x) \<and> unchanged n0 s (h_set_index s tgt i x)"
proof (cases tgt)
  case (HRef a)
  show ?thesis
  proof (cases "h_cell s a")
    case None
    then show ?thesis using HRef r by (simp add: unchanged_refl)
  next
    case (Some c)
    show ?thesis
    proof (cases c)
      case (HObj ps)
      then show ?thesis using HRef Some r by (simp add: unchanged_refl)
    next
      case (HArr xs)
      have old: "\<And>y. y \<in> set (cell_vals c) \<Longrightarrow> fresh_val n0 y"
        using region_ok_cell [OF r _ Some] t HRef by simp
      have "list_all (fresh_val n0) (cell_vals (HArr (xs[i := x])))"
        unfolding list_all_iff using old x HArr set_update_subset_insert [of xs i x] by auto
      then show ?thesis
        using region_ok_update [OF r, of a] t HRef Some HArr by simp
    qed
  qed
qed (use r in \<open>simp_all add: unchanged_refl\<close>)

lemma region_ok_parse:
  "region_ok n0 s \<Longrightarrow> parse j s = (v, s') \<Longrightarrow> region_ok n0 s' \<and> unchanged n0 s s' \<and> fresh_val n0 v"
  "region_ok n0 s \<Longrightarrow> parse_list js s = (vs, s') \<Longrightarrow>
     region_ok n0 s' \<and> unchanged n0 s s' \<and> list_all (fresh_val n0) vs"
  "region_ok n0 s \<Longrightarrow> parse_props ps s = (qs, s') \<Longrightarrow>
     region_ok n0 s' \<and> unchanged n0 s s' \<and> list_all (fresh_val n0) (map snd qs)"
proof (induction j s and js s and ps s arbitrary: v s' and vs s' and qs s'
       rule: parse_parse_list_parse_props.induct)
  case (6 xs s)
  obtain vs s1 where p: "parse_list xs s = (vs, s1)" by (cases "parse_list xs s")
  have a: "alloc (HArr vs) s1 = (v, s')" using 6(3) p by simp
  note ih = 6(1) [OF 6(2) p]
  have "list_all (fresh_val n0) (cell_vals (HArr vs))" using ih by simp
  then show ?case using region_ok_alloc [OF _ _ a] ih unchanged_trans by blast
next
  case (7 ps s)
  obtain qs s1 where p: "parse_props ps s = (qs, s1)" by (cases "parse_props ps s")
  have a: "alloc (HObj qs) s1 = (v, s')" using 7(3) p by simp
  note ih = 7(1) [OF 7(2) p]
  have "list_all (fresh_val n0) (cell_vals (HObj qs))" using ih by simp
  then show ?case using region_ok_alloc [OF _ _ a] ih unchanged_trans by blast
next
  case (9 x xs s)
  obtain v1 s1 where p1: "parse x s = (v1, s1)" by (cases "parse x s")
  obtain vs2 s2 where p2: "parse_list xs s1 = (vs2, s2)" by (cases "parse_list xs s1")
  have e: "vs = v1 # vs2" "s' = s2" using 9(4) p1 p2 by simp_all
  note ih1 = 9(1) [OF 9(3) p1]
  note ih2 = 9(2) [OF p1 [symmetric] refl _ p2, OF conjunct1 [OF ih1]]
  show ?case using ih1 ih2 e unchanged_trans by auto
next
  case (11 k x ps s)
  obtain v1 s1 where p1: "parse x s = (v1, s1)" by (cases "parse x s")
  obtain qs2 s2 where p2: "parse_props ps s1 = (qs2, s2)" by (cases "parse_props ps s1")
  have e: "qs = (k, v1) # qs2" "s' = s2" using 11(4) p1 p2 by simp_all
  note ih1 = 11(1) [OF 11(3) p1]
  note ih2 = 11(2) [OF p1 [symmetric] refl _ p2, OF conjunct1 [OF ih1]]
  show ?case using ih1 ih2 e unchanged_trans by auto
qed (auto simp: unchanged_refl)

lemma region_ok_clone:
  assumes "region_ok n0 s" "jsonClone_h v s = Inr (c, s')"
  shows "region_ok n0 s' \<and> unchanged n0 s s' \<and> fresh_val n0 c"
proof -
  obtain j where "parse (clone_val j) s = (c, s')"
    using assms(2) unfolding jsonClone_h_def
    by (cases "stringify s (length s) v") (auto split: if_splits)
  then show ?thesis using region_ok_parse(1) [OF assms(1)] by blast
qed

lemma bind_o_Inr:
  assumes "bind_o m f = Some (Inr r)"
  obtains v where "m = Some (Inr v)" "f v = Some (Inr r)"
  using assms unfolding bind_o_def by (auto split: option.splits sum.splits)

lemma bind_o_Some_Inr:
  assumes "bind_o (Some m) f = Some (Inr r)"
  obtains v where "m = Inr v" "f v = Some (Inr r)"
  using assms unfolding bind_o_def by (auto split: sum.splits)

lemma bind_r_InrE:
  assumes "bind_r m f = Inr r"
  obtains v where "m = Inr v" "f v = Inr r"
  using assms unfolding bind_r_def by (auto split: sum.splits)

lemma find_folder_h_mem: "find_folder_h s title ts = Inr (Some t) \<Longrightarrow> t \<in> set ts"
proof (induction ts)
  case Nil
  then show ?case by simp
next
  case (Cons x ts)
  from Cons.prems obtain ch where ch: "h_get s x ''children'' = Inr ch"
    and r: "(if h_truthy ch \<and> h_prop s x ''title'' = title then Inr (Some x)
             else find_folder_h s title ts) = Inr (Some t)"
    by (auto elim: bind_r_InrE)
  show ?case
  proof (cases "h_truthy ch \<and> h_prop s x ''title'' = title")
    case True
    then show ?thesis using r by simp
  next
    case False
    have "find_folder_h s title ts = Inr (Some t)" using r False by (simp split: if_splits)
    then show ?thesis using Cons.IH by simp
  qed
qed

lemma h_get_Inr: "h_get s v k = Inr x \<Longrightarrow> x = h_prop s v k"
  by (cases v) simp_all

lemma mergeNodes_h_frame:
  "mergeNodes_h fuel target source i s = Some (Inr s') \<Longrightarrow> region_ok n0 s \<Longrightarrow> fresh_val n0 target
   \<Longrightarrow> region_ok n0 s' \<and> unchanged n0 s s'"
proof (induction fuel arbitrary: target source i s s')
  case 0
  then show ?case by simp
next
  case (Suc fuel)
  note r0 = Suc.prems(2) and ft = Suc.prems(3)
  from Suc.prems(1) obtain "next" where nx: "for_of s source i = Inr next"
    and b1: "(case next of
         None \<Rightarrow> Some (Inr s)
       | Some srcNode \<Rightarrow>
           bind_o (Some (jsonClone_h srcNode s)) (\<lambda>(srcNodeCopy, s1).
           bind_o (Some (h_get s1 srcNodeCopy ''children'')) (\<lambda>children.
             if h_truthy children then
               bind_o (Some (bind_r (h_elems s1 target)
                               (find_folder_h s1 (h_prop s1 srcNodeCopy ''title'')))) (\<lambda>found.
                 case found of
                   Some existingFolderInTarget \<Rightarrow>
                     if h_prop s1 srcNodeCopy ''title'' = HStr ''Bookmarks Bar''
                     then mergeNodes_h fuel target source (i + 1)
                            (h_write s1 existingFolderInTarget ''children'' children)
                     else
                       (let s2 = h_write s1 existingFolderInTarget ''title''
                                   (h_prop s1 srcNodeCopy ''title'')
                        in bind_o (mergeNodes_h fuel (h_prop s2 existingFolderInTarget ''children'')
                                     (h_prop s2 srcNodeCopy ''children'') 0 s2) (\<lambda>s3.
                             mergeNodes_h fuel target source (i + 1) s3))
                 | None \<Rightarrow> mergeNodes_h fuel target source (i + 1) (h_push s1 target srcNodeCopy))
             else
               bind_o (Some (bind_r (h_elems s1 target) (isDuplicateBookmark_h s1 srcNodeCopy)))
                 (\<lambda>dup.
                   if dup then mergeNodes_h fuel target source (i + 1) s1
                   else mergeNodes_h fuel target source (i + 1) (h_push s1 target srcNodeCopy)))))
        = Some (Inr s')"
    unfolding mergeNodes_h.simps by (rule bind_o_Some_Inr)
  show ?case
  proof (cases "next")
    case None
    then show ?thesis using b1 r0 by (simp add: unchanged_refl)
  next
    case (Some srcNode)
    from b1 [unfolded Some option.case] obtain cp where
      cl: "jsonClone_h srcNode s = Inr cp"
      and b2: "(case cp of (srcNodeCopy, s1) \<Rightarrow>
           bind_o (Some (h_get s1 srcNodeCopy ''children'')) (\<lambda>children.
             if h_truthy children then
               bind_o (Some (bind_r (h_elems s1 target)
                               (find_folder_h s1 (h_prop s1 srcNodeCopy ''title'')))) (\<lambda>found.
                 case found of
                   Some existingFolderInTarget \<Rightarrow>
                     if h_prop s1 srcNodeCopy ''title'' = HStr ''Bookmarks Bar''
                     then mergeNodes_h fuel target source (i + 1)
                            (h_write s1 existingFolderInTarget ''children'' children)
                     else
                       (let s2 = h_write s1 existingFolderInTarget ''title''
                                   (h_prop s1 srcNodeCopy ''title'')
                        in bind_o (mergeNodes_h fuel (h_prop s2 existingFolderInTarget ''children'')
                                     (h_prop s2 srcNodeCopy ''children'') 0 s2) (\<lambda>s3.
                             mergeNodes_h fuel target source (i + 1) s3))
                 | None \<Rightarrow> mergeNodes_h fuel target source (i + 1) (h_push s1 target srcNodeCopy))
             else
               bind_o (Some (bind_r (h_elems s1 target) (isDuplicateBookmark_h s1 srcNodeCopy)))
                 (\<lambda>dup.
                   if dup then mergeNodes_h fuel target source (i + 1) s1
                   else mergeNodes_h fuel target source (i + 1) (h_push s1 target srcNodeCopy))))
        = Some (Inr s')"
      by (rule bind_o_Some_Inr)
    obtain c s1 where cp: "cp = (c, s1)" by (cases cp)
    note k1 = region_ok_clone [OF r0 cl [unfolded cp]]
    have r1: "region_ok n0 s1" and u1: "unchanged n0 s s1" and fc: "fresh_val n0 c"
      using k1 by simp_all
    from b2 [unfolded cp prod.case] obtain children where
      ch: "h_get s1 c ''children'' = Inr children"
      and b3: "(if h_truthy children then
               bind_o (Some (bind_r (h_elems s1 target)
                               (find_folder_h s1 (h_prop s1 c ''title'')))) (\<lambda>found.
                 case found of
                   Some existingFolderInTarget \<Rightarrow>
                     if h_prop s1 c ''title'' = HStr ''Bookmarks Bar''
                     then mergeNodes_h fuel target source (i + 1)
                            (h_write s1 existingFolderInTarget ''children'' children)
                     else
                       (let s2 = h_write s1 existingFolderInTarget ''title''
                                   (h_prop s1 c ''title'')
                        in bind_o (mergeNodes_h fuel (h_prop s2 existingFolderInTarget ''children'')
                                     (h_prop s2 c ''children'') 0 s2) (\<lambda>s3.
                             mergeNodes_h fuel target source (i + 1) s3))
                 | None \<Rightarrow> mergeNodes_h fuel target source (i + 1) (h_push s1 target c))
             else
               bind_o (Some (bind_r (h_elems s1 target) (isDuplicateBookmark_h s1 c)))
                 (\<lambda>dup.
                   if dup then mergeNodes_h fuel target source (i + 1) s1
                   else mergeNodes_h fuel target source (i + 1) (h_push s1 target c)))
        = Some (Inr s')"
      by (rule bind_o_Some_Inr)
    have fch: "fresh_val n0 children"
      unfolding h_get_Inr [OF ch] using r1 fc by (rule fresh_prop)
    have push: "region_ok n0 (h_push s1 target c)" "unchanged n0 s1 (h_push s1 target c)"
      using region_ok_push [OF r1 ft fc] by simp_all
    have fin: "region_ok n0 s' \<and> unchanged n0 s s'"
      if "mergeNodes_h fuel target source (i + 1) sx = Some (Inr s')"
        and "region_ok n0 sx" and "unchanged n0 s1 sx" for sx
      using Suc.IH [OF that(1,2) ft] that(3) u1 unchanged_trans by blast
    show ?thesis
    proof (cases "h_truthy children")
      case False
      have "bind_o (Some (bind_r (h_elems s1 target) (isDuplicateBookmark_h s1 c)))
                 (\<lambda>dup.
                   if dup then mergeNodes_h fuel target source (i + 1) s1
                   else mergeNodes_h fuel target source (i + 1) (h_push s1 target c))
            = Some (Inr s')"
        using b3 False by (simp only: if_False)
      then obtain dup where
        b4: "(if dup then mergeNodes_h fuel target source (i + 1) s1
              else mergeNodes_h fuel target source (i + 1) (h_push s1 target c)) = Some (Inr s')"
        by (rule bind_o_Some_Inr)
      show ?thesis
      proof (cases dup)
        case True
        then show ?thesis using b4 fin [OF _ r1 unchanged_refl] by simp
      next
        case False
        then show ?thesis using b4 fin [OF _ push] by simp
      qed
    next
      case True
      have "bind_o (Some (bind_r (h_elems s1 target)
                               (find_folder_h s1 (h_prop s1 c ''title'')))) (\<lambda>found.
                 case found of
                   Some existingFolderInTarget \<Rightarrow>
                     if h_prop s1 c ''title'' = HStr ''Bookmarks Bar''
                     then mergeNodes_h fuel target source (i + 1)
                            (h_write s1 existingFolderInTarget ''children'' children)
                     else
                       (let s2 = h_write s1 existingFolderInTarget ''title''
                                   (h_prop s1 c ''title'')
                        in bind_o (mergeNodes_h fuel (h_prop s2 existingFolderInTarget ''children'')
                                     (h_prop s2 c ''children'') 0 s2) (\<lambda>s3.
                             mergeNodes_h fuel target source (i + 1) s3))
                 | None \<Rightarrow> mergeNodes_h fuel target source (i + 1) (h_push s1 target c))
            = Some (Inr s')"
        using b3 True by (simp only: if_True)
      then obtain found where
        fd: "bind_r (h_elems s1 target) (find_folder_h s1 (h_prop s1 c ''title'')) = Inr found"
        and b4: "(case found of
                   Some existingFolderInTarget \<Rightarrow>
                     if h_prop s1 c ''title'' = HStr ''Bookmarks Bar''
                     then mergeNodes_h fuel target source (i + 1)
                            (h_write s1 existingFolderInTarget ''children'' children)
                     else
                       (let s2 = h_write s1 existingFolderInTarget ''title''
                                   (h_prop s1 c ''title'')
                        in bind_o (mergeNodes_h fuel (h_prop s2 existingFolderInTarget ''children'')
                                     (h_prop s2 c ''children'') 0 s2) (\<lambda>s3.
                             mergeNodes_h fuel target source (i + 1) s3))
                 | None \<Rightarrow> mergeNodes_h fuel target source (i + 1) (h_push s1 target c))
            = Some (Inr s')"
        by (rule bind_o_Some_Inr)
      show ?thesis
      proof (cases found)
        case None
        then show ?thesis using b4 fin [OF _ push] by simp
      next
        case (Some e)
        from fd obtain xs where xs: "h_elems s1 target = Inr xs"
          and f2: "find_folder_h s1 (h_prop s1 c ''title'') xs = Inr (Some e)"
          unfolding Some by (elim bind_r_InrE)
        have "e \<in> set xs" using f2 by (rule find_folder_h_mem)
        then have fe: "fresh_val n0 e"
          using fresh_elems [OF r1 ft xs] by (simp add: list_all_iff)
        show ?thesis
        proof (cases "h_prop s1 c ''title'' = HStr ''Bookmarks Bar''")
          case True
          have "mergeNodes_h fuel target source (i + 1) (h_write s1 e ''children'' children)
                = Some (Inr s')"
            using b4 True unfolding Some by simp
          then show ?thesis
            using fin region_ok_write [OF r1 fe fch] by blast
        next
          case False
          define s2 where "s2 = h_write s1 e ''title'' (h_prop s1 c ''title'')"
          have w: "region_ok n0 s2" "unchanged n0 s1 s2"
            unfolding s2_def using region_ok_write [OF r1 fe fresh_prop [OF r1 fc]] by simp_all
          have "bind_o (mergeNodes_h fuel (h_prop s2 e ''children'') (h_prop s2 c ''children'') 0 s2)
                  (\<lambda>s3. mergeNodes_h fuel target source (i + 1) s3) = Some (Inr s')"
            using b4 False unfolding Some s2_def by (simp add: Let_def)
          then obtain s3 where
            inner: "mergeNodes_h fuel (h_prop s2 e ''children'') (h_prop s2 c ''children'') 0 s2
                    = Some (Inr s3)"
            and outer: "mergeNodes_h fuel target source (i + 1) s3 = Some (Inr s')"
            by (elim bind_o_Inr)
          have "region_ok n0 s3 \<and> unchanged n0 s2 s3"
            using inner w(1) fresh_prop [OF w(1) fe] by (rule Suc.IH)
          then have "region_ok n0 s3" "unchanged n0 s1 s3"
            using w(2) unchanged_trans by blast+
          then show ?thesis using fin [OF outer] by blast
        qed
      qed
    qed
  qed
qed

lemma fold_region_ok:
  assumes "\<And>s k. region_ok n0 s \<Longrightarrow> region_ok n0 (f k s) \<and> unchanged n0 s (f k s)"
  shows "region_ok n0 s \<Longrightarrow> region_ok n0 (fold f ks s) \<and> unchanged n0 s (fold f ks s)"
proof (induction ks arbitrary: s)
  case Nil
  then show ?case by (simp add: unchanged_refl)
next
  case (Cons k ks)
  note a = assms [OF Cons.prems, of k]
  have "region_ok n0 (fold f ks (f k s)) \<and> unchanged n0 (f k s) (fold f ks (f k s))"
    using a by (intro Cons.IH) simp
  then show ?case using a unchanged_trans by auto
qed

lemma region_ok_overlay:
  assumes r: "region_ok n0 s" and p: "fresh_val n0 preferredExt" and m: "fresh_val n0 mergedExt"
    and o: "overlay_preferred_h preferredExt mergedExt s = Inr s'"
  shows "region_ok n0 s' \<and> unchanged n0 s s'"
proof -
  have s': "s' = fold (\<lambda>key s'.
                   if key \<notin> set special_keys \<and> h_prop s' preferredExt key \<noteq> HUndefined
                   then h_write s' mergedExt key (h_prop s' preferredExt key) else s')
                 (map fst (h_own_props s preferredExt)) s"
    using o unfolding overlay_preferred_h_def by (auto elim: bind_r_InrE)
  show ?thesis unfolding s'
  proof (rule fold_region_ok [OF _ r], goal_cases)
    case (1 sx k)
    then show ?case
      using region_ok_write [OF 1 m fresh_prop [OF 1 p]] by (simp add: unchanged_refl)
  qed
qed

lemma region_ok_restore:
  assumes r: "region_ok n0 s" and b: "fresh_val n0 baseExt" and m: "fresh_val n0 mergedExt"
    and o: "restore_base_h baseExt mergedExt s = Inr s'"
  shows "region_ok n0 s' \<and> unchanged n0 s s'"
proof -
  have s': "s' = fold (\<lambda>key s'.
                   if h_prop s' mergedExt key = HUndefined \<and> h_prop s' baseExt key \<noteq> HUndefined
                   then h_write s' mergedExt key (h_prop s' baseExt key) else s')
                 (map fst (h_own_props s baseExt)) s"
    using o unfolding restore_base_h_def by (auto elim: bind_r_InrE)
  show ?thesis unfolding s'
  proof (rule fold_region_ok [OF _ r], goal_cases)
    case (1 sx k)
    then show ?case
      using region_ok_write [OF 1 m fresh_prop [OF 1 b]] by (simp add: unchanged_refl)
  qed
qed

lemma region_ok_mergeRecord:
  assumes r: "region_ok n0 s" and b: "fresh_val n0 baseExt" and p: "fresh_val n0 preferredExt"
    and mr: "mergeRecord_h baseExt preferredExt s = Inr (mergedExt, s')"
  shows "region_ok n0 s' \<and> unchanged n0 s s' \<and> fresh_val n0 mergedExt"
proof -
  obtain m s0 where a: "alloc (HObj (h_own_props s baseExt)) s = (m, s0)"
    by (cases "alloc (HObj (h_own_props s baseExt)) s")
  have "list_all (fresh_val n0) (cell_vals (HObj (h_own_props s baseExt)))"
    using fresh_own_props [OF r b] by simp
  from region_ok_alloc [OF r this a]
  have r0: "region_ok n0 s0" and u0: "unchanged n0 s s0" and fm: "fresh_val n0 m" by simp_all
  define v1 where "v1 = h_or (h_prop s0 preferredExt ''id'') (h_prop s0 baseExt ''id'')"
  define s1 where "s1 = h_write s0 m ''id'' v1"
  have "fresh_val n0 v1"
    unfolding v1_def h_or_def using fresh_prop [OF r0 p] fresh_prop [OF r0 b] by simp
  from region_ok_write [OF r0 fm this]
  have r1: "region_ok n0 s1" and u1: "unchanged n0 s0 s1" by (simp_all add: s1_def)
  define v2 where "v2 = (if h_present (h_prop s1 preferredExt ''name'')
                  then h_prop s1 preferredExt ''name'' else h_prop s1 baseExt ''name'')"
  define s2 where "s2 = h_write s1 m ''name'' v2"
  have "fresh_val n0 v2"
    unfolding v2_def using fresh_prop [OF r1 p] fresh_prop [OF r1 b] by simp
  from region_ok_write [OF r1 fm this]
  have r2: "region_ok n0 s2" and u2: "unchanged n0 s1 s2" by (simp_all add: s2_def)
  define v3 where "v3 = (if h_present (h_prop s2 preferredExt ''homepageUrl'')
                     \<and> h_prop s2 preferredExt ''homepageUrl'' \<noteq> HStr []
                  then h_prop s2 preferredExt ''homepageUrl''
                  else h_prop s2 baseExt ''homepageUrl'')"
  define s3 where "s3 = h_write s2 m ''homepageUrl'' v3"
  have "fresh_val n0 v3"
    unfolding v3_def using fresh_prop [OF r2 p] fresh_prop [OF r2 b] by simp
  from region_ok_write [OF r2 fm this]
  have r3: "region_ok n0 s3" and u3: "unchanged n0 s2 s3" by (simp_all add: s3_def)
  define v4 where "v4 = (if h_present (h_prop s3 preferredExt ''updateUrl'')
                  then h_prop s3 preferredExt ''updateUrl'' else h_prop s3 baseExt ''updateUrl'')"
  define s4 where "s4 = h_write s3 m ''updateUrl'' v4"
  have "fresh_val n0 v4"
    unfolding v4_def using fresh_prop [OF r3 p] fresh_prop [OF r3 b] by simp
  from region_ok_write [OF r3 fm this]
  have r4: "region_ok n0 s4" and u4: "unchanged n0 s3 s4" by (simp_all add: s4_def)
  have u04: "unchanged n0 s s4" using u0 u1 u2 u3 u4 unchanged_trans by blast
  have e: "bind_r (overlay_preferred_h preferredExt m s4) (\<lambda>s5.
         bind_r (restore_base_h baseExt m s5) (\<lambda>s6. Inr (m, s6))) = Inr (mergedExt, s')"
    using mr unfolding mergeRecord_h_def a prod.case Let_def
      v1_def [symmetric] s1_def [symmetric] v2_def [symmetric] s2_def [symmetric]
      v3_def [symmetric] s3_def [symmetric] v4_def [symmetric] s4_def [symmetric] .
  then obtain s5 where o: "overlay_preferred_h preferredExt m s4 = Inr s5"
    and e2: "bind_r (restore_base_h baseExt m s5) (\<lambda>s6. Inr (m, s6)) = Inr (mergedExt, s')"
    by (rule bind_r_InrE)
  from e2 obtain s6 where rb2: "restore_base_h baseExt m s5 = Inr s6"
    and fin: "Inr (m, s6) = (Inr (mergedExt, s') :: error + hval \<times> store)"
    by (rule bind_r_InrE)
  have me: "mergedExt = m" "s' = s6" using fin by simp_all
  note k5 = region_ok_overlay [OF r4 p fm o]
  note k6 = region_ok_restore [OF conjunct1 [OF k5] b fm rb2]
  show ?thesis unfolding me using k5 k6 u04 fm unchanged_trans by blast
qed

lemma fresh_index:
  "region_ok n0 s \<Longrightarrow> fresh_val n0 arr \<Longrightarrow> fresh_val n0 (h_index s arr i)"
proof -
  assume r: "region_ok n0 s" and f: "fresh_val n0 arr"
  show ?thesis
  proof (cases "h_elems s arr")
    case (Inl e)
    then show ?thesis by (simp add: h_index_def)
  next
    case (Inr xs)
    have "list_all (fresh_val n0) xs" using r f Inr by (rule fresh_elems)
    then show ?thesis using Inr by (simp add: h_index_def list_all_length)
  qed
qed

lemma state_ok_push:
  assumes "state_ok n0 st" "fresh_val n0 c"
  shows "state_ok n0 (push_new_h c st) \<and> unchanged n0 (heap st) (heap (push_new_h c st))
         \<and> finalResult_h (push_new_h c st) = finalResult_h st"
  using assms region_ok_push [of n0 "heap st" "finalResult_h st" c]
  by (simp add: state_ok_def push_new_h_def Let_def)

lemma state_ok_unify:
  assumes ok: "state_ok n0 st" and c: "fresh_val n0 c"
    and u: "unify_h fromB c m st = Inr st'"
  shows "state_ok n0 st' \<and> unchanged n0 (heap st) (heap st') \<and> finalResult_h st' = finalResult_h st"
proof -
  have r: "region_ok n0 (heap st)" and f: "fresh_val n0 (finalResult_h st)"
    using ok by (simp_all add: state_ok_def)
  define t where "t = h_index (heap st) (finalResult_h st) m"
  have ft: "fresh_val n0 t" unfolding t_def using r f by (rule fresh_index)
  define b where "b = (if fromB then t else c)"
  define p where "p = (if fromB then c else t)"
  have fb: "fresh_val n0 b" and fp: "fresh_val n0 p" using ft c by (simp_all add: b_def p_def)
  have "bind_r (mergeRecord_h b p (heap st)) (\<lambda>(mergedExt, s1).
           Inr (st \<lparr> heap := h_set_index s1 (finalResult_h st) m mergedExt,
                 idToIndexMap_h :=
                   reindex_id_h (idToIndexMap_h st) (h_prop (heap st) t ''id'')
                     (h_prop (h_set_index s1 (finalResult_h st) m mergedExt) mergedExt ''id'') m,
                 urlToIndexMap_h :=
                   reindex_url_h (urlToIndexMap_h st) (h_prop (heap st) t ''homepageUrl'')
                     (h_prop (h_set_index s1 (finalResult_h st) m mergedExt) mergedExt
                        ''homepageUrl'') m \<rparr>)) = Inr st'"
    using u unfolding unify_h_def Let_def t_def b_def p_def .
  then obtain mp where mr: "mergeRecord_h b p (heap st) = Inr mp"
    and e: "(case mp of (mergedExt, s1) \<Rightarrow>
           Inr (st \<lparr> heap := h_set_index s1 (finalResult_h st) m mergedExt,
                 idToIndexMap_h :=
                   reindex_id_h (idToIndexMap_h st) (h_prop (heap st) t ''id'')
                     (h_prop (h_set_index s1 (finalResult_h st) m mergedExt) mergedExt ''id'') m,
                 urlToIndexMap_h :=
                   reindex_url_h (urlToIndexMap_h st) (h_prop (heap st) t ''homepageUrl'')
                     (h_prop (h_set_index s1 (finalResult_h st) m mergedExt) mergedExt
                        ''homepageUrl'') m \<rparr>)) = (Inr st' :: error + merge_state_h)"
    by (rule bind_r_InrE)
  obtain me s1 where mp: "mp = (me, s1)" by (cases mp)
  note k = region_ok_mergeRecord [OF r fb fp mr [unfolded mp]]
  have r1: "region_ok n0 s1" and u1: "unchanged n0 (heap st) s1" and fme: "fresh_val n0 me"
    using k by simp_all
  note w = region_ok_set_index [OF r1 f fme, of m]
  have h: "heap st' = h_set_index s1 (finalResult_h st) m me"
    and fr: "finalResult_h st' = finalResult_h st"
    using e unfolding mp by (auto simp: Let_def)
  show ?thesis unfolding state_ok_def h fr using w u1 f unchanged_trans by blast
qed

lemma state_ok_step:
  assumes ok: "state_ok n0 st" and s: "merge_step_h fromB x st = Inr st'"
  shows "state_ok n0 st' \<and> unchanged n0 (heap st) (heap st') \<and> finalResult_h st' = finalResult_h st"
proof -
  have r: "region_ok n0 (heap st)" and f: "fresh_val n0 (finalResult_h st)"
    using ok by (simp_all add: state_ok_def)
  from s obtain cp where cl: "jsonClone_h x (heap st) = Inr cp"
    and e: "(case cp of (currentExtCopy, s1) \<Rightarrow>
       let st1 = st \<lparr> heap := s1 \<rparr> in
       case lookup_slot_h currentExtCopy st1 of
         Some matchedIndex \<Rightarrow>
           if h_truthy (h_index s1 (finalResult_h st) matchedIndex)
           then unify_h fromB currentExtCopy matchedIndex st1
           else Inr (push_new_h currentExtCopy st1)
       | None \<Rightarrow> Inr (push_new_h currentExtCopy st1)) = Inr st'"
    unfolding merge_step_h_def by (rule bind_r_InrE)
  obtain c s1 where cp: "cp = (c, s1)" by (cases cp)
  note k = region_ok_clone [OF r cl [unfolded cp]]
  define st1 where "st1 = st \<lparr> heap := s1 \<rparr>"
  have ok1: "state_ok n0 st1" using k f by (simp add: state_ok_def st1_def)
  have u1: "unchanged n0 (heap st) (heap st1)" using k by (simp add: st1_def)
  have fr1: "finalResult_h st1 = finalResult_h st" by (simp add: st1_def)
  have fc: "fresh_val n0 c" using k by simp
  have e': "(case lookup_slot_h c st1 of
         Some matchedIndex \<Rightarrow>
           if h_truthy (h_index s1 (finalResult_h st) matchedIndex)
           then unify_h fromB c matchedIndex st1
           else Inr (push_new_h c st1)
       | None \<Rightarrow> Inr (push_new_h c st1)) = Inr st'"
    using e unfolding cp prod.case Let_def st1_def [symmetric] .
  have "state_ok n0 st' \<and> unchanged n0 (heap st1) (heap st') \<and> finalResult_h st' = finalResult_h st1"
  proof (cases "lookup_slot_h c st1")
    case None
    then have "st' = push_new_h c st1" using e' by simp
    then show ?thesis using state_ok_push [OF ok1 fc] by simp
  next
    case (Some m)
    show ?thesis
    proof (cases "h_truthy (h_index s1 (finalResult_h st) m)")
      case True
      then have "unify_h fromB c m st1 = Inr st'" using e' Some by simp
      then show ?thesis by (rule state_ok_unify [OF ok1 fc])
    next
      case False
      then have "st' = push_new_h c st1" using e' Some by simp
      then show ?thesis using state_ok_push [OF ok1 fc] by simp
    qed
  qed
  then show ?thesis using u1 fr1 unchanged_trans by auto
qed

lemma state_ok_all:
  "state_ok n0 st \<Longrightarrow> merge_all_h fromB xs st = Inr st'
   \<Longrightarrow> state_ok n0 st' \<and> unchanged n0 (heap st) (heap st') \<and> finalResult_h st' = finalResult_h st"
proof (induction xs arbitrary: st)
  case Nil
  then show ?case by (simp add: unchanged_refl)
next
  case (Cons x xs)
  from Cons.prems(2) obtain st1 where s: "merge_step_h fromB x st = Inr st1"
    and rest: "merge_all_h fromB xs st1 = Inr st'"
    by (auto elim: bind_r_InrE)
  note k1 = state_ok_step [OF Cons.prems(1) s]
  note k2 = Cons.IH [OF conjunct1 [OF k1] rest]
  show ?case using k1 k2 unchanged_trans by auto
qed

lemma reaches_fresh:
  "reaches s v a \<Longrightarrow> region_ok n0 s \<Longrightarrow> fresh_val n0 v \<Longrightarrow> n0 \<le> a"
proof (induction rule: reaches.induct)
  case (root a)
  then show ?case by simp
next
  case (step v a c b)
  have "n0 \<le> a" using step by simp
  then have "fresh_val n0 (HRef b)" using region_ok_cell [OF step.prems(1) _ step.hyps(2,3)] by simp
  then show ?case by simp
qed

lemma region_ok_self: "region_ok (length s) s"
  by (simp add: region_ok_def)

lemma unchanged_append:
  assumes "region_ok (length s) s'" "unchanged (length s) s s'"
  shows "\<exists>new. s' = s @ new"
proof -
  have "take (length s) s' = s" using assms(2) by (simp add: unchanged_def)
  then have "s' = s @ drop (length s) s'" by (metis append_take_drop_id)
  then show ?thesis ..
qed

lemma region_ok_default:
  assumes "region_ok n0 s" "default_array v s = (a, s')"
  shows "region_ok n0 s' \<and> unchanged n0 s s'"
proof (cases "v = HUndefined")
  case True
  then have "alloc (HArr []) s = (a, s')" using assms(2) by (simp add: default_array_def)
  then show ?thesis using region_ok_alloc [OF assms(1), of "HArr []"] by simp
next
  case False
  then show ?thesis using assms by (simp add: default_array_def unchanged_refl)
qed

lemma mergeBookmarkTrees_h_frame:
  assumes "mergeBookmarkTrees_h fuel listA listB s = Some (Inr (r, s'))"
  shows "(\<exists>new. s' = s @ new) \<and> (\<forall>a. reaches s' r a \<longrightarrow> length s \<le> a)"
proof -
  define n0 where "n0 = length s"
  have r: "region_ok n0 s" unfolding n0_def by (rule region_ok_self)
  obtain a sa where da: "default_array listA s = (a, sa)" by (cases "default_array listA s")
  obtain b sb where db: "default_array listB sa = (b, sb)" by (cases "default_array listB sa")
  note ka = region_ok_default [OF r da]
  note kb = region_ok_default [OF conjunct1 [OF ka] db]
  have e: "bind_o (Some (jsonClone_h a sb)) (\<lambda>(merged, s1).
         bind_o (mergeNodes_h fuel merged b 0 s1) (\<lambda>s2. Some (Inr (merged, s2))))
       = Some (Inr (r, s'))"
    using assms unfolding mergeBookmarkTrees_h_def da db prod.case Let_def .
  then obtain cp where cl: "jsonClone_h a sb = Inr cp"
    and e2: "(case cp of (merged, s1) \<Rightarrow>
         bind_o (mergeNodes_h fuel merged b 0 s1) (\<lambda>s2. Some (Inr (merged, s2))))
       = Some (Inr (r, s'))"
    by (rule bind_o_Some_Inr)
  obtain m s1 where cp: "cp = (m, s1)" by (cases cp)
  note kc = region_ok_clone [OF conjunct1 [OF kb] cl [unfolded cp]]
  from e2 [unfolded cp prod.case] obtain s2 where
    mn: "mergeNodes_h fuel m b 0 s1 = Some (Inr s2)"
    and fin: "Some (Inr (m, s2)) = (Some (Inr (r, s')) :: (error + hval \<times> store) option)"
    by (rule bind_o_Inr)
  have me: "r = m" "s' = s2" using fin by simp_all
  have km: "region_ok n0 s2 \<and> unchanged n0 s1 s2"
    using mergeNodes_h_frame [OF mn, of n0] kc by blast
  have ok: "region_ok n0 s'" and un: "unchanged n0 s s'" and fr: "fresh_val n0 r"
    unfolding me using ka kb kc km unchanged_trans by blast+
  show ?thesis
    using unchanged_append [of s s'] reaches_fresh [OF _ ok fr] ok un unfolding n0_def by blast
qed

lemma mergeExtensionLists_h_frame:
  assumes "mergeExtensionLists_h listA listB s = Inr (r, s')"
  shows "(\<exists>new. s' = s @ new) \<and> (\<forall>a. reaches s' r a \<longrightarrow> length s \<le> a)"
proof -
  define n0 where "n0 = length s"
  have r: "region_ok n0 s" unfolding n0_def by (rule region_ok_self)
  obtain fr s0 where a: "alloc (HArr []) s = (fr, s0)" by (cases "alloc (HArr []) s")
  have ka: "region_ok n0 s0 \<and> unchanged n0 s s0 \<and> fresh_val n0 fr"
    using region_ok_alloc [OF r _ a] by simp
  define st0 where "st0 = \<lparr> heap = s0, finalResult_h = fr,
                     idToIndexMap_h = Map.empty, urlToIndexMap_h = Map.empty \<rparr>"
  have ok0: "state_ok n0 st0" using ka by (simp add: state_ok_def st0_def)
  have e: "bind_r (merge_all_h False (h_records s listA) st0) (\<lambda>st1.
         bind_r (merge_all_h True (h_records s listB) st1) (\<lambda>st2. Inr (finalResult_h st2, heap st2)))
       = Inr (r, s')"
    using assms unfolding mergeExtensionLists_h_def a prod.case Let_def st0_def [symmetric] .
  then obtain st1 where m1: "merge_all_h False (h_records s listA) st0 = Inr st1"
    and e2: "bind_r (merge_all_h True (h_records s listB) st1)
               (\<lambda>st2. Inr (finalResult_h st2, heap st2)) = Inr (r, s')"
    by (rule bind_r_InrE)
  from e2 obtain st2 where m2: "merge_all_h True (h_records s listB) st1 = Inr st2"
    and fin: "Inr (finalResult_h st2, heap st2) = (Inr (r, s') :: error + hval \<times> store)"
    by (rule bind_r_InrE)
  have me: "r = finalResult_h st2" "s' = heap st2" using fin by simp_all
  note k1 = state_ok_all [OF ok0 m1]
  note k2 = state_ok_all [OF conjunct1 [OF k1] m2]
  have h0: "heap st0 = s0" by (simp add: st0_def)
  have ok2: "state_ok n0 st2" using k2 by blast
  have ok: "region_ok n0 s'" and fr: "fresh_val n0 r"
    unfolding me using ok2 by (simp_all add: state_ok_def)
  have "unchanged n0 s (heap st0)" using ka h0 by simp
  moreover have "unchanged n0 (heap st0) (heap st1)" using k1 by blast
  moreover have "unchanged n0 (heap st1) (heap st2)" using k2 by blast
  ultimately have un: "unchanged n0 s s'"
    unfolding me using unchanged_trans by blast
  show ?thesis
    using unchanged_append [of s s'] reaches_fresh [OF _ ok fr] ok un unfolding n0_def by blast
qed

text \<open>
  Claim C7. Whenever \<open>mergeBookmarkTrees\<close> or \<open>mergeExtensionLists\<close> returns, the store
  after the call is the store before the call followed by new cells: every cell that
  existed before, and so every array and object of the two arguments, has the contents it
  had. Every cell that can be reached from the returned value is one of the new cells, so
  the result shares no array and no object with the arguments.
\<close>

theorem arguments_not_mutated:
  "(mergeBookmarkTrees_h fuel listA listB s = Some (Inr (r, s'))
      \<longrightarrow> (\<exists>new. s' = s @ new) \<and> (\<forall>a. reaches s' r a \<longrightarrow> length s \<le> a))
   \<and> (mergeExtensionLists_h listA listB s = Inr (r, s')
      \<longrightarrow> (\<exists>new. s' = s @ new) \<and> (\<forall>a. reaches s' r a \<longrightarrow> length s \<le> a))"
  using mergeBookmarkTrees_h_frame [of fuel listA listB s r s']
    mergeExtensionLists_h_frame [of listA listB s r s']
  by blast

text \<open>
  An instance for each reconciler. The forest \<open>[F [A]]\<close> at address 3 is merged with
  \<open>[F [B]]\<close> at address 7: the eight cells of the arguments are unchanged, and the result
  at address 11 lies in the cells 8 to 15. The record list at address 1 is merged with the
  one at address 3: the result at address 4 holds the merged record at address 7.
\<close>

theorem arguments_not_mutated_witness:
  "mergeBookmarkTrees_h (Suc (Suc (Suc 0))) (HRef 3) (HRef 7)
      [HObj [(''title'', HStr ''A''), (''url'', HStr ''http://a'')],
       HArr [HRef 0],
       HObj [(''title'', HStr ''F''), (''children'', HRef 1)],
       HArr [HRef 2],
       HObj [(''title'', HStr ''B''), (''url'', HStr ''http://b'')],
       HArr [HRef 4],
       HObj [(''title'', HStr ''F''), (''children'', HRef 5)],
       HArr [HRef 6]]
    = Some (Inr (HRef 11,
      [HObj [(''title'', HStr ''A''), (''url'', HStr ''http://a'')],
       HArr [HRef 0],
       HObj [(''title'', HStr ''F''), (''children'', HRef 1)],
       HArr [HRef 2],
       HObj [(''title'', HStr ''B''), (''url'', HStr ''http://b'')],
       HArr [HRef 4],
       HObj [(''title'', HStr ''F''), (''children'', HRef 5)],
       HArr [HRef 6],
       HObj [(''title'', HStr ''A''), (''url'', HStr ''http://a'')],
       HArr [HRef 8, HRef 15],
       HObj [(''title'', HStr ''F''), (''children'', HRef 9)],
       HArr [HRef 10],
       HObj [(''title'', HStr ''B''), (''url'', HStr ''http://b'')],
       HArr [HRef 12],
       HObj [(''title'', HStr ''F''), (''children'', HRef 13)],
       HObj [(''title'', HStr ''B''), (''url'', HStr ''http://b'')]]))
   \<and> (\<forall>a. reaches
      [HObj [(''title'', HStr ''A''), (''url'', HStr ''http://a'')],
       HArr [HRef 0],
       HObj [(''title'', HStr ''F''), (''children'', HRef 1)],
       HArr [HRef 2],
       HObj [(''title'', HStr ''B''), (''url'', HStr ''http://b'')],
       HArr [HRef 4],
       HObj [(''title'', HStr ''F''), (''children'', HRef 5)],
       HArr [HRef 6],
       HObj [(''title'', HStr ''A''), (''url'', HStr ''http://a'')],
       HArr [HRef 8, HRef 15],
       HObj [(''title'', HStr ''F''), (''children'', HRef 9)],
       HArr [HRef 10],
       HObj [(''title'', HStr ''B''), (''url'', HStr ''http://b'')],
       HArr [HRef 12],
       HObj [(''title'', HStr ''F''), (''children'', HRef 13)],
       HObj [(''title'', HStr ''B''), (''url'', HStr ''http://b'')]] (HRef 11) a \<longrightarrow> 8 \<le> a)
   \<and> mergeExtensionLists_h (HRef 1) (HRef 3)
      [HObj [(''id'', HStr ''x''), (''name'', HStr ''Old'')], HArr [HRef 0],
       HObj [(''id'', HStr ''x''), (''name'', HStr ''New'')], HArr [HRef 2]]
    = Inr (HRef 4,
      [HObj [(''id'', HStr ''x''), (''name'', HStr ''Old'')], HArr [HRef 0],
       HObj [(''id'', HStr ''x''), (''name'', HStr ''New'')], HArr [HRef 2],
       HArr [HRef 7], HObj [(''id'', HStr ''x''), (''name'', HStr ''Old'')],
       HObj [(''id'', HStr ''x''), (''name'', HStr ''New'')],
       HObj [(''id'', HStr ''x''), (''name'', HStr ''New''),
             (''homepageUrl'', HUndefined), (''updateUrl'', HUndefined)]])
   \<and> (\<forall>a. reaches
      [HObj [(''id'', HStr ''x''), (''name'', HStr ''Old'')], HArr [HRef 0],
       HObj [(''id'', HStr ''x''), (''name'', HStr ''New'')], HArr [HRef 2],
       HArr [HRef 7], HObj [(''id'', HStr ''x''), (''name'', HStr ''Old'')],
       HObj [(''id'', HStr ''x''), (''name'', HStr ''New'')],
       HObj [(''id'', HStr ''x''), (''name'', HStr ''New''),
             (''homepageUrl'', HUndefined), (''updateUrl'', HUndefined)]] (HRef 4) a \<longrightarrow> 4 \<le> a)"
proof -
  have t: "mergeBookmarkTrees_h (Suc (Suc (Suc 0))) (HRef 3) (HRef 7)
      [HObj [(''title'', HStr ''A''), (''url'', HStr ''http://a'')],
       HArr [HRef 0],
       HObj [(''title'', HStr ''F''), (''children'', HRef 1)],
       HArr [HRef 2],
       HObj [(''title'', HStr ''B''), (''url'', HStr ''http://b'')],
       HArr [HRef 4],
       HObj [(''title'', HStr ''F''), (''children'', HRef 5)],
       HArr [HRef 6]]
    = Some (Inr (HRef 11,
      [HObj [(''title'', HStr ''A''), (''url'', HStr ''http://a'')],
       HArr [HRef 0],
       HObj [(''title'', HStr ''F''), (''children'', HRef 1)],
       HArr [HRef 2],
       HObj [(''title'', HStr ''B''), (''url'', HStr ''http://b'')],
       HArr [HRef 4],
       HObj [(''title'', HStr ''F''), (''children'', HRef 5)],
       HArr [HRef 6],
       HObj [(''title'', HStr ''A''), (''url'', HStr ''http://a'')],
       HArr [HRef 8, HRef 15],
       HObj [(''title'', HStr ''F''), (''children'', HRef 9)],
       HArr [HRef 10],
       HObj [(''title'', HStr ''B''), (''url'', HStr ''http://b'')],
       HArr [HRef 12],
       HObj [(''title'', HStr ''F''), (''children'', HRef 13)],
       HObj [(''title'', HStr ''B''), (''url'', HStr ''http://b'')]]))"
    by code_simp
  have e: "mergeExtensionLists_h (HRef 1) (HRef 3)
      [HObj [(''id'', HStr ''x''), (''name'', HStr ''Old'')], HArr [HRef 0],
       HObj [(''id'', HStr ''x''), (''name'', HStr ''New'')], HArr [HRef 2]]
    = Inr (HRef 4,
      [HObj [(''id'', HStr ''x''), (''name'', HStr ''Old'')], HArr [HRef 0],
       HObj [(''id'', HStr ''x''), (''name'', HStr ''New'')], HArr [HRef 2],
       HArr [HRef 7], HObj [(''id'', HStr ''x''), (''name'', HStr ''Old'')],
       HObj [(''id'', HStr ''x''), (''name'', HStr ''New'')],
       HObj [(''id'', HStr ''x''), (''name'', HStr ''New''),
             (''homepageUrl'', HUndefined), (''updateUrl'', HUndefined)]])"
    by code_simp
  show ?thesis
    using arguments_not_mutated [THEN conjunct1, rule_format, OF t]
      arguments_not_mutated [THEN conjunct2, rule_format, OF e] t e
    by (simp add: eval_nat_numeral)
qed

end
